theory Spec2Isabelle
  imports Complex_Main "HOL-Library.Word" "HOL-Library.Log_Nat"
begin

section \<open>Data model\<close>

text \<open>
  Conventions of the embedding.
  \<^item> A C \<open>int\<close> is an Isabelle \<open>int\<close>: signed overflow is undefined in C and lies outside
    the model.
  \<^item> A C \<open>double\<close> is the real number it denotes, and every operation on doubles
    is followed by \<open>rnd\<close>, the rounding of IEEE 754 binary64 (to nearest, ties to even,
    significand of 53 bits). The exponent is not bounded: overflow to infinity,
    subnormal numbers and NaN are outside the model. A C \<open>int\<close> converts to a double
    without rounding.
  \<^item> The conversion \<open><int>\<close> truncates towards zero. In \<open>stack\<close> and \<open>separate\<close> a
    conversion whose result is not an \<open>int\<close> of 32 bits, which is undefined in C, is the
    error \<open>UndefinedConversion\<close>.
  \<^item> An \<open>unsigned char\<close> is an \<open>8 word\<close>. The fused element type \<open>y_t\<close> is any type with
    \<open>0\<close> and \<open>+\<close>: an integer type of \<open>w\<close> bits is \<open>w word\<close>, whose addition wraps modulo
    \<open>2 ^ w\<close>; \<open>float\<close> and \<open>double\<close> are \<open>float32\<close> and \<open>float64\<close>, whose addition rounds.
  \<^item> The modules are compiled with \<open>boundscheck=False\<close>, \<open>wraparound=False\<close> and
    \<open>cdivision=True\<close>: an index outside its dimension is undefined and is the error
    \<open>OutOfBounds\<close> here; integer division is C's and a zero divisor is the error
    \<open>DivisionByZero\<close>.
  \<^item> The pixel buffer is reached through a raw pointer: memory is a function from
    addresses to bytes, and a surface holds the address of its buffer.
\<close>

type_synonym memory = "int \<Rightarrow> 8 word"

record surface =
  ptr :: int
  line_length :: int
  height_complement :: int
  offset_x :: int
  offset_y :: int
  plot_width :: int
  plot_height :: int
  min_x :: int
  max_x :: int
  min_y :: int
  max_y :: int
  start_x :: real
  end_x :: real
  start_y :: real
  end_y :: real
  div_x :: real
  div_y :: real

text \<open>The state the handle \<open>s_bits\<close> gives access to: the surface struct and the memory
  its \<open>ptr\<close> points into.\<close>

record state =
  surf :: surface
  mem :: memory

text \<open>\<open>ValueError st\<close> is the Python exception, raised in state \<open>st\<close>. The other three are
  undefined behaviour of the compiled code, after which no state is defined.\<close>

datatype error = ValueError state | OutOfBounds | DivisionByZero | UndefinedConversion

record py_slice =
  start :: "int option"
  stop :: "int option"

section \<open>Double arithmetic\<close>

text \<open>\<open>expo x\<close> is the exponent of \<open>x \<noteq> 0\<close>: \<open>2 ^ expo x \<le> |x| < 2 ^ (expo x + 1)\<close>.\<close>

definition expo :: "real \<Rightarrow> int" where
  "expo x = (if 1 \<le> \<bar>x\<bar> then bitlen \<lfloor>\<bar>x\<bar>\<rfloor> - 1 else - bitlen (\<lceil>1 / \<bar>x\<bar>\<rceil> - 1))"

definition round_even :: "real \<Rightarrow> int" where
  "round_even q =
     (let f = \<lfloor>q\<rfloor>; d = q - of_int f
      in if d < 1 / 2 then f else if 1 / 2 < d then f + 1 else if even f then f else f + 1)"

text \<open>Rounding to a significand of \<open>p\<close> bits: \<open>x\<close> is scaled by its unit in the last place
  to an integer of \<open>p\<close> bits, which is rounded to nearest, ties to even.\<close>

definition round_to :: "int \<Rightarrow> real \<Rightarrow> real" where
  "round_to p x =
     (if x = 0 then 0
      else of_int (round_even (x / 2 powi (expo x - (p - 1)))) * 2 powi (expo x - (p - 1)))"

definition rnd :: "real \<Rightarrow> real" where
  "rnd x = round_to 53 x"

text \<open>The element types \<open>double\<close> and \<open>float\<close> of an array: the number, with the rounded
  addition of the type.\<close>

datatype float64 = Float64 real

datatype float32 = Float32 real

instantiation float64 :: "{zero, plus}"
begin

definition zero_float64 :: float64 where
  "zero_float64 = Float64 0"

definition plus_float64 :: "float64 \<Rightarrow> float64 \<Rightarrow> float64" where
  "plus_float64 a b = (case a of Float64 x \<Rightarrow> case b of Float64 y \<Rightarrow> Float64 (round_to 53 (x + y)))"

instance ..

end

instantiation float32 :: "{zero, plus}"
begin

definition zero_float32 :: float32 where
  "zero_float32 = Float32 0"

definition plus_float32 :: "float32 \<Rightarrow> float32 \<Rightarrow> float32" where
  "plus_float32 a b = (case a of Float32 x \<Rightarrow> case b of Float32 y \<Rightarrow> Float32 (round_to 24 (x + y)))"

instance ..

end

section \<open>Numeric conversions and array accesses\<close>

definition to_int :: "real \<Rightarrow> int" where
  "to_int r = (if 0 \<le> r then \<lfloor>r\<rfloor> else \<lceil>r\<rceil>)"

definition c_int :: "real \<Rightarrow> error + int" where
  "c_int r =
     (if - (2 ^ 31) - 1 < r \<and> r < 2 ^ 31 then Inr (to_int r) else Inl UndefinedConversion)"

definition cdiv :: "int \<Rightarrow> int \<Rightarrow> int" where
  "cdiv a b = sgn a * sgn b * (\<bar>a\<bar> div \<bar>b\<bar>)"

definition get :: "'a list \<Rightarrow> int \<Rightarrow> error + 'a" where
  "get xs i = (if 0 \<le> i \<and> i < int (length xs) then Inr (xs ! nat i) else Inl OutOfBounds)"

definition get2 :: "'a list list \<Rightarrow> int \<Rightarrow> int \<Rightarrow> error + 'a" where
  "get2 a i j = (case get a i of Inl e \<Rightarrow> Inl e | Inr r \<Rightarrow> get r j)"

definition set2 :: "'a list list \<Rightarrow> int \<Rightarrow> int \<Rightarrow> 'a \<Rightarrow> error + 'a list list" where
  "set2 a i j v =
     (if 0 \<le> i \<and> i < int (length a) \<and> 0 \<le> j \<and> j < int (length (a ! nat i))
      then Inr (a[nat i := (a ! nat i)[nat j := v]])
      else Inl OutOfBounds)"

text \<open>A two-dimensional array is the list of its rows; \<open>shape1\<close> is \<open>a.shape[1]\<close> of an
  array with at least one row.\<close>

definition shape1 :: "'a list list \<Rightarrow> int" where
  "shape1 a = (case a of [] \<Rightarrow> 0 | r # _ \<Rightarrow> int (length r))"

text \<open>\<open>for i in is: s = body i s\<close>, stopping at the first error. \<open>range(n)\<close> is
  \<open>[0..n - 1]\<close> and \<open>range(a, b)\<close> is \<open>[a..b - 1]\<close>.\<close>

fun for_loop :: "int list \<Rightarrow> (int \<Rightarrow> 's \<Rightarrow> error + 's) \<Rightarrow> 's \<Rightarrow> error + 's" where
  "for_loop [] body s = Inr s"
| "for_loop (i # js) body s =
     (case body i s of Inl e \<Rightarrow> Inl e | Inr s' \<Rightarrow> for_loop js body s')"

section \<open>Downsampler\<close>

definition separate ::
  "'a list \<Rightarrow> 'a list list \<Rightarrow> real \<Rightarrow> int \<Rightarrow> py_slice \<Rightarrow> error + 'a list list" where
  "separate inp outp distance binning outp_slice =
     (if distance = 0 then Inl UndefinedConversion
      else
        case c_int distance of Inl e \<Rightarrow> Inl e | Inr d \<Rightarrow>
        case c_int (rnd (of_int (int (length inp)) / distance)) of Inl e \<Rightarrow> Inl e
        | Inr n_parts \<Rightarrow>
          let inp_len = int (length inp);
              outp_len = min inp_len d;
              outp_begin = (case start outp_slice of Some b \<Rightarrow> b | None \<Rightarrow> 0);
              outp_end = (case stop outp_slice of Some e \<Rightarrow> e | None \<Rightarrow> outp_len)
          in for_loop [0..n_parts - 1]
               (\<lambda>i. let part_start = rnd (of_int i * distance)
                    in for_loop [outp_begin..outp_end - 1]
                         (\<lambda>j outp.
                            if binning = 0 then Inl DivisionByZero
                            else case c_int (rnd (part_start + of_int j)) of
                                   Inl e \<Rightarrow> Inl e
                                 | Inr k \<Rightarrow>
                                     case get inp k of
                                       Inl e \<Rightarrow> Inl e
                                     | Inr v \<Rightarrow>
                                         set2 outp i (cdiv (j - outp_begin) binning) v))
               outp)"

definition stack ::
  "'a::{zero, plus} list list \<Rightarrow> 'a list list \<Rightarrow> real \<Rightarrow> error + 'a list list" where
  "stack inp outp stacking =
     (if stacking = 0 then Inl UndefinedConversion
      else
        case c_int stacking of Inl e \<Rightarrow> Inl e | Inr t \<Rightarrow>
        case c_int (rnd (of_int (shape1 inp) / stacking)) of Inl e \<Rightarrow> Inl e
        | Inr stack_height \<Rightarrow>
          let inp_len = shape1 inp;
              outp_len = min inp_len t
          in for_loop [0..int (length inp) - 1]
               (\<lambda>i. for_loop [0..outp_len - 1]
                  (\<lambda>j outp.
                     case for_loop [0..stack_height - 1]
                            (\<lambda>k datum.
                               case c_int (rnd (of_int j + rnd (of_int k * stacking))) of
                                 Inl e \<Rightarrow> Inl e
                               | Inr n \<Rightarrow>
                                   case get2 inp i n of
                                     Inl e \<Rightarrow> Inl e
                                   | Inr v \<Rightarrow> Inr (datum + v))
                            0 of
                       Inl e \<Rightarrow> Inl e
                     | Inr datum \<Rightarrow> set2 outp i j datum))
               outp)"

text \<open>The value \<open>stack\<close> accumulates for column \<open>j\<close> of a row: the samples at
  \<open><int>(j + k * stacking)\<close> for \<open>k\<close> below \<open><int>(inp_len / stacking)\<close>, both in double
  arithmetic, added from the left in the element type.\<close>

definition stack_datum :: "'a::{zero, plus} list \<Rightarrow> real \<Rightarrow> nat \<Rightarrow> 'a" where
  "stack_datum row S j =
     foldl (+) 0
       (map (\<lambda>k. row ! nat (to_int (rnd (real j + rnd (real k * S)))))
          [0..<nat (to_int (rnd (real (length row) / S)))])"

text \<open>The sum in the words of the specification of \<open>stack\<close>, with the floor and the
  quotient of the real numbers: over \<open>k = 0 .. floor(L/S) - 1\<close>, of
  \<open>input[i][floor(j + k*S)]\<close>.\<close>

definition strided_sum :: "'a::len word list list \<Rightarrow> real \<Rightarrow> nat \<Rightarrow> nat \<Rightarrow> 'a word" where
  "strided_sum inp S i j =
     (\<Sum>k = 0..<nat \<lfloor>real (length (inp ! i)) / S\<rfloor>. inp ! i ! nat \<lfloor>real j + real k * S\<rfloor>)"

section \<open>Histogram image accumulator\<close>

text \<open>\<open><unsigned char>(255 - 255/(1 + 0.005 * n))\<close>: the conversion of a double to
  \<open>unsigned char\<close> is defined when the truncated value fits.\<close>

definition scaled :: "int \<Rightarrow> error + 8 word" where
  "scaled n =
     (let d = rnd (1 + rnd (rnd (5 / 1000) * of_int n))
      in if d = 0 then Inl UndefinedConversion
         else let v = to_int (rnd (255 - rnd (255 / d)))
              in if 0 \<le> v \<and> v \<le> 255 then Inr (word_of_int v) else Inl UndefinedConversion)"

definition add_pixel ::
  "int list list \<Rightarrow> int list list \<Rightarrow> int \<Rightarrow> int \<Rightarrow> int \<Rightarrow> 8 word \<Rightarrow> memory
     \<Rightarrow> error + (int list list \<times> memory \<times> 8 word)" where
  "add_pixel mtx pos size_x size_y data_img_bits prev_max_value m =
     (let height_complement = size_y - 1
      in for_loop [0..int (length pos) - 1]
           (\<lambda>i (mtx, m, max_value).
              case get2 pos i 0 of Inl e \<Rightarrow> Inl e | Inr x \<Rightarrow>
              case get2 pos i 1 of Inl e \<Rightarrow> Inl e | Inr y \<Rightarrow>
              case get2 mtx y x of Inl e \<Rightarrow> Inl e | Inr n \<Rightarrow>
              case set2 mtx y x (n + 1) of Inl e \<Rightarrow> Inl e | Inr mtx' \<Rightarrow>
              case scaled (n + 1) of Inl e \<Rightarrow> Inl e | Inr scaled_value \<Rightarrow>
                Inr (mtx',
                     m(data_img_bits + ((height_complement - y) * size_x + x) := scaled_value),
                     max scaled_value max_value))
           (mtx, m, prev_max_value))"

section \<open>Rasterization surface\<close>

definition draw_pixel :: "surface \<Rightarrow> int \<Rightarrow> int \<Rightarrow> int \<Rightarrow> memory \<Rightarrow> memory" where
  "draw_pixel s x y c m =
     (if x \<ge> min_x s \<and> x \<le> max_x s \<and> y \<ge> min_y s \<and> y \<le> max_y s
      then m(ptr s + ((height_complement s - y) * line_length s + x) := word_of_int c)
      else m)"

definition draw_rect :: "surface \<Rightarrow> int \<Rightarrow> int \<Rightarrow> int \<Rightarrow> int \<Rightarrow> int \<Rightarrow> memory \<Rightarrow> memory" where
  "draw_rect s x1 y1 w h c m =
     (let x2 = x1 + w - 1;
          y2 = y1 + h - 1;
          m1 = fold (\<lambda>x m. draw_pixel s x y2 c (draw_pixel s x y1 c m)) [x1..x2] m
      in fold (\<lambda>y m. draw_pixel s x2 y c (draw_pixel s x1 y c m)) [y1 + 1..y2 - 1] m1)"

definition fill_rect :: "surface \<Rightarrow> int \<Rightarrow> int \<Rightarrow> int \<Rightarrow> int \<Rightarrow> int \<Rightarrow> memory \<Rightarrow> memory" where
  "fill_rect s x1 y1 w h c m =
     (let x2 = x1 + w - 1;
          y2 = y1 + h - 1
      in fold (\<lambda>x. fold (\<lambda>y. draw_pixel s x y c) [y1 + 1..y2 - 1]) [x1..x2] m)"

definition draw_square :: "surface \<Rightarrow> int \<Rightarrow> int \<Rightarrow> int \<Rightarrow> int \<Rightarrow> memory \<Rightarrow> memory" where
  "draw_square s x y l c m =
     draw_rect s (x - drop_bit 1 (l - 1)) (y - drop_bit 1 (l - 1)) l l c m"

text \<open>The two \<open>while\<close> loops of \<open>draw_line\<close>. They return the loop variables; \<open>None\<close> is a
  loop that does not end.\<close>

partial_function (option) line_loop_x ::
  "surface \<Rightarrow> int \<Rightarrow> int \<Rightarrow> int \<Rightarrow> int \<Rightarrow> int \<Rightarrow> int \<Rightarrow> int \<Rightarrow> int \<Rightarrow> int \<Rightarrow> memory
     \<Rightarrow> (int \<times> int \<times> memory) option" where
  "line_loop_x s x y x2 ix iy err dx dy c m =
     (if x \<noteq> x2
      then line_loop_x s (x + ix) (if err \<ge> 0 then y + iy else y) x2 ix iy
             ((if err \<ge> 0 then err - dx else err) + dy) dx dy c (draw_pixel s x y c m)
      else Some (x, y, m))"

partial_function (option) line_loop_y ::
  "surface \<Rightarrow> int \<Rightarrow> int \<Rightarrow> int \<Rightarrow> int \<Rightarrow> int \<Rightarrow> int \<Rightarrow> int \<Rightarrow> int \<Rightarrow> int \<Rightarrow> memory
     \<Rightarrow> (int \<times> int \<times> memory) option" where
  "line_loop_y s x y y2 ix iy err dx dy c m =
     (if y \<noteq> y2
      then line_loop_y s (if err \<ge> 0 then x + ix else x) (y + iy) y2 ix iy
             ((if err \<ge> 0 then err - dy else err) + dx) dx dy c (draw_pixel s x y c m)
      else Some (x, y, m))"

declare line_loop_x.simps [code]
declare line_loop_y.simps [code]

definition draw_line ::
  "surface \<Rightarrow> int \<Rightarrow> int \<Rightarrow> int \<Rightarrow> int \<Rightarrow> int \<Rightarrow> memory \<Rightarrow> memory option" where
  "draw_line s x1 y1 x2 y2 c m =
     (let dx = (if x2 \<ge> x1 then x2 - x1 else x1 - x2);
          ix = (if x2 \<ge> x1 then 1 else - 1);
          dy = (if y2 \<ge> y1 then y2 - y1 else y1 - y2);
          iy = (if y2 \<ge> y1 then 1 else - 1)
      in if dx = 0 then
           (let ya = (if iy < 0 then y2 else y1);
                yb = (if iy < 0 then y1 else y2)
            in Some (fold (\<lambda>y. draw_pixel s x1 y c) [ya..yb] m))
         else if dy = 0 then
           (let xa = (if ix < 0 then x2 else x1);
                xb = (if ix < 0 then x1 else x2)
            in Some (fold (\<lambda>x. draw_pixel s x y1 c) [xa..xb] m))
         else if dx \<ge> dy then
           (let dy' = push_bit 1 dy;
                err = dy' - dx;
                dx' = push_bit 1 dx
            in case line_loop_x s x1 y1 x2 ix iy err dx' dy' c m of
                 None \<Rightarrow> None
               | Some (x, y, m') \<Rightarrow> Some (draw_pixel s x y c m'))
         else
           (let dx' = push_bit 1 dx;
                err = dx' - dy;
                dy' = push_bit 1 dy
            in case line_loop_y s x1 y1 y2 ix iy err dx' dy' c m of
                 None \<Rightarrow> None
               | Some (x, y, m') \<Rightarrow> Some (draw_pixel s x y c m')))"

definition surface_set_geometry ::
  "state \<Rightarrow> int \<Rightarrow> int \<Rightarrow> int \<Rightarrow> int list \<Rightarrow> error + state" where
  "surface_set_geometry st image_bits ll image_height geometry =
     (case get geometry 0 of Inl e \<Rightarrow> Inl e | Inr g0 \<Rightarrow>
      case get geometry 1 of Inl e \<Rightarrow> Inl e | Inr g1 \<Rightarrow>
      case get geometry 2 of Inl e \<Rightarrow> Inl e | Inr g2 \<Rightarrow>
      case get geometry 3 of Inl e \<Rightarrow> Inl e | Inr g3 \<Rightarrow>
        let s1 = (surf st)\<lparr>ptr := image_bits, line_length := ll,
                           height_complement := image_height - 1\<rparr>;
            s2 = s1\<lparr>offset_x := g0, offset_y := g1, plot_width := g2, plot_height := g3\<rparr>;
            s3 = s2\<lparr>min_x := offset_x s2, max_x := offset_x s2 + plot_width s2,
                    min_y := offset_y s2, max_y := offset_y s2 + plot_height s2\<rparr>
        in Inr (st\<lparr>surf := s3\<rparr>))"

definition surface_set_view :: "state \<Rightarrow> real list \<Rightarrow> real list \<Rightarrow> error + state" where
  "surface_set_view st axes transform =
     (case get axes 0 of Inl e \<Rightarrow> Inl e | Inr a0 \<Rightarrow>
      case get axes 1 of Inl e \<Rightarrow> Inl e | Inr a1 \<Rightarrow>
      case get axes 2 of Inl e \<Rightarrow> Inl e | Inr a2 \<Rightarrow>
      case get axes 3 of Inl e \<Rightarrow> Inl e | Inr a3 \<Rightarrow>
      case get transform 0 of Inl e \<Rightarrow> Inl e | Inr t0 \<Rightarrow>
      case get transform 1 of Inl e \<Rightarrow> Inl e | Inr t1 \<Rightarrow>
        Inr (st\<lparr>surf := (surf st)\<lparr>start_x := a0, end_x := a1, start_y := a2, end_y := a3,
                                  div_x := t0, div_y := t1\<rparr>\<rparr>))"

text \<open>\<open>memset(s.ptr, 0, n)\<close>; a negative \<open>int\<close> count converts to a \<open>size_t\<close> beyond any
  buffer.\<close>

definition surface_clear :: "state \<Rightarrow> error + state" where
  "surface_clear st =
     (let s = surf st;
          n = line_length s * (height_complement s + 1)
      in if n < 0 then Inl OutOfBounds
         else Inr (st\<lparr>mem := (\<lambda>a. if ptr s \<le> a \<and> a < ptr s + n then 0 else mem st a)\<rparr>))"

section \<open>Trace and bar renderer\<close>

text \<open>The affine map from data space to image space, written out at every use in the
  source: \<open><int>((<double>v - s.start_x) * s.div_x) + s.offset_x\<close>.\<close>

definition image_x :: "surface \<Rightarrow> real \<Rightarrow> int" where
  "image_x s v = to_int (rnd (rnd (v - start_x s) * div_x s)) + offset_x s"

definition image_y :: "surface \<Rightarrow> real \<Rightarrow> int" where
  "image_y s v = to_int (rnd (rnd (v - start_y s) * div_y s)) + offset_y s"

text \<open>The loop \<open>for i in range(1, N)\<close> of \<open>plot\<close>. The source writes it twice, under
  \<open>if marker\<close> and under \<open>else\<close>; the two bodies differ in the call of \<open>draw_square\<close>
  only.\<close>

fun plot_loop ::
  "surface \<Rightarrow> real list \<Rightarrow> real list \<Rightarrow> bool \<Rightarrow> int \<Rightarrow> int \<Rightarrow> int list \<Rightarrow> int \<Rightarrow> int \<Rightarrow> memory
     \<Rightarrow> (error + memory) option" where
  "plot_loop s data_x data_y marker line_color symbol_color [] last_x last_y m = Some (Inr m)"
| "plot_loop s data_x data_y marker line_color symbol_color (i # js) last_x last_y m =
     (case get data_x i of Inl e \<Rightarrow> Some (Inl e) | Inr xv \<Rightarrow>
      case get data_y i of Inl e \<Rightarrow> Some (Inl e) | Inr yv \<Rightarrow>
        let cur_x = image_x s xv;
            cur_y = image_y s yv
        in if \<not> ((last_x < offset_x s \<and> cur_x < offset_x s) \<or>
                  (last_x > max_x s \<and> cur_x > max_x s))
           then (case draw_line s last_x last_y cur_x cur_y line_color m of
                   None \<Rightarrow> None
                 | Some m' \<Rightarrow>
                     plot_loop s data_x data_y marker line_color symbol_color js cur_x cur_y
                       (if marker then draw_square s cur_x cur_y 5 symbol_color m' else m'))
           else plot_loop s data_x data_y marker line_color symbol_color js cur_x cur_y m)"

definition plot :: "state \<Rightarrow> real list \<Rightarrow> real list \<Rightarrow> int \<Rightarrow> bool \<Rightarrow> (error + state) option" where
  "plot st data_x data_y color_idx marker =
     (if length data_x \<noteq> length data_y then Some (Inl (ValueError st))
      else
        let s = surf st;
            N = int (length data_y);
            line_color = (color_idx + 1) * 10 + 1;
            symbol_color = line_color + 1
        in case get data_x 0 of Inl e \<Rightarrow> Some (Inl e) | Inr x0 \<Rightarrow>
           case get data_y 0 of Inl e \<Rightarrow> Some (Inl e) | Inr y0 \<Rightarrow>
             let last_x = image_x s x0;
                 last_y = image_y s y0;
                 m0 = (if marker \<and> last_x \<ge> offset_x s \<and> last_x \<le> max_x s
                       then draw_square s last_x last_y 5 symbol_color (mem st)
                       else mem st)
             in case plot_loop s data_x data_y marker line_color symbol_color [1..N - 1]
                       last_x last_y m0 of
                  None \<Rightarrow> None
                | Some (Inl e) \<Rightarrow> Some (Inl e)
                | Some (Inr m') \<Rightarrow> Some (Inr (st\<lparr>mem := m'\<rparr>)))"

text \<open>The loop \<open>for i in range(N)\<close> of \<open>bars\<close>; its assignment to \<open>last_x\<close> is never read.\<close>

fun bars_loop ::
  "surface \<Rightarrow> real list \<Rightarrow> real list \<Rightarrow> int \<Rightarrow> int \<Rightarrow> int \<Rightarrow> int list \<Rightarrow> memory
     \<Rightarrow> (error + memory) option" where
  "bars_loop s data_x data_y color width y0 [] m = Some (Inr m)"
| "bars_loop s data_x data_y color width y0 (i # js) m =
     (case get data_y i of Inl e \<Rightarrow> Some (Inl e) | Inr datum \<Rightarrow>
      case get data_x i of Inl e \<Rightarrow> Some (Inl e) | Inr xv \<Rightarrow>
        let cur_x = image_x s xv;
            cur_y = image_y s datum
        in if cur_x \<ge> offset_x s \<and> cur_x \<le> max_x s
           then if cur_y = y0
                then (case draw_line s (cur_x - cdiv width 2) y0 (cur_x + cdiv width 2) y0
                             color m of
                        None \<Rightarrow> None
                      | Some m' \<Rightarrow> bars_loop s data_x data_y color width y0 js m')
                else bars_loop s data_x data_y color width y0 js
                       (fill_rect s (cur_x - cdiv width 2) (min y0 cur_y) width
                          (abs (cur_y - y0)) color m)
           else bars_loop s data_x data_y color width y0 js m)"

definition bars :: "state \<Rightarrow> real list \<Rightarrow> real list \<Rightarrow> int \<Rightarrow> int \<Rightarrow> (error + state) option" where
  "bars st data_x data_y color_idx width =
     (if length data_x \<noteq> length data_y then Some (Inl (ValueError st))
      else
        let s = surf st;
            N = int (length data_y);
            color = (color_idx + 1) * 10 + 1;
            y0 = image_y s 0
        in case bars_loop s data_x data_y color width y0 [0..N - 1] (mem st) of
             None \<Rightarrow> None
           | Some (Inl e) \<Rightarrow> Some (Inl e)
           | Some (Inr m') \<Rightarrow> Some (Inr (st\<lparr>mem := m'\<rparr>)))"

text \<open>The surface of the scenario of the specification (a plot of 10 by 10 at the origin,
  identity view), on an image of 11 lines of 11 bytes at address 0.\<close>

definition scenario_surface :: surface where
  "scenario_surface =
     \<lparr>ptr = 0, line_length = 11, height_complement = 10,
      offset_x = 0, offset_y = 0, plot_width = 10, plot_height = 10,
      min_x = 0, max_x = 10, min_y = 0, max_y = 10,
      start_x = 0, end_x = 10, start_y = 0, end_y = 10, div_x = 1, div_y = 1\<rparr>"

definition blank :: memory where
  "blank = (\<lambda>a. 0)"

definition scenario_state :: state where
  "scenario_state = \<lparr>surf = scenario_surface, mem = blank\<rparr>"

text \<open>The invariant of the clip rectangle, and the eight fields it relates.\<close>

definition clip_invariant :: "surface \<Rightarrow> bool" where
  "clip_invariant s \<longleftrightarrow>
     min_x s = offset_x s \<and> max_x s = offset_x s + plot_width s \<and>
     min_y s = offset_y s \<and> max_y s = offset_y s + plot_height s"

definition geometry_of :: "surface \<Rightarrow> int \<times> int \<times> int \<times> int \<times> int \<times> int \<times> int \<times> int" where
  "geometry_of s =
     (offset_x s, offset_y s, plot_width s, plot_height s, min_x s, max_x s, min_y s, max_y s)"

text \<open>A segment of major difference \<open>M\<close> and minor difference \<open>m\<close> is free of ties when
  it crosses no point halfway between two pixels: the error term of the loop of
  \<open>draw_line\<close>, which is \<open>2 * m * t - M\<close> modulo \<open>2 * M\<close> after \<open>t\<close> steps, is never 0.\<close>

definition tie_free :: "int \<Rightarrow> int \<Rightarrow> bool" where
  "tie_free M m \<longleftrightarrow> (\<forall>t\<in>set [1..M]. \<not> 2 * M dvd 2 * m * t + M)"

text \<open>The steps along the minor axis that the loop of \<open>draw_line\<close> has taken after \<open>t\<close>
  steps along the major axis: \<open>m * t / M\<close> rounded to the nearest integer, a half
  rounded up.\<close>

definition minor_steps :: "int \<Rightarrow> int \<Rightarrow> int \<Rightarrow> int" where
  "minor_steps M m t = (2 * m * t + M) div (2 * M)"

section \<open>The clip test of draw_pixel\<close>

text \<open>
  C2. When \<open>(x, y)\<close> lies in the clip rectangle, \<open>draw_pixel\<close> stores the colour (converted
  to \<open>unsigned char\<close>) at offset \<open>(height - 1 - y) * stride + x\<close> of the buffer and changes
  no other byte; when it lies outside, memory is unchanged.
\<close>

theorem draw_pixel_clip:
  "(min_x s \<le> x \<and> x \<le> max_x s \<and> min_y s \<le> y \<and> y \<le> max_y s \<longrightarrow>
      draw_pixel s x y c m =
        m(ptr s + ((height_complement s - y) * line_length s + x) := word_of_int c)) \<and>
   (\<not> (min_x s \<le> x \<and> x \<le> max_x s \<and> min_y s \<le> y \<and> y \<le> max_y s) \<longrightarrow>
      draw_pixel s x y c m = m)"
  by (simp add: draw_pixel_def)

theorem draw_pixel_clip_witness:
  "draw_pixel scenario_surface 3 4 7 blank = blank(69 := 7) \<and>
   draw_pixel scenario_surface 11 4 7 blank = blank \<and>
   draw_pixel scenario_surface 3 (- 1) 7 blank = blank"
  using draw_pixel_clip [of scenario_surface 3 4 7 blank]
    draw_pixel_clip [of scenario_surface 11 4 7 blank]
    draw_pixel_clip [of scenario_surface 3 "- 1" 7 blank]
  by (simp add: scenario_surface_def)

section \<open>The length check of plot and bars\<close>

text \<open>
  C3. When the two input arrays differ in length, \<open>plot\<close> and \<open>bars\<close> raise \<open>ValueError\<close>
  in the state they were called in: neither the memory (the pixel buffer) nor a field of
  the surface has changed.
\<close>

theorem mismatch_raises:
  "length data_x \<noteq> length data_y \<Longrightarrow>
     plot st data_x data_y color_idx marker = Some (Inl (ValueError st)) \<and>
     bars st data_x data_y color_idx width = Some (Inl (ValueError st))"
  by (simp add: plot_def bars_def)

theorem mismatch_raises_witness:
  "plot scenario_state [0, 5] [0] 0 True = Some (Inl (ValueError scenario_state)) \<and>
   bars scenario_state [0, 5] [0] 0 3 = Some (Inl (ValueError scenario_state))"
  using mismatch_raises [of "[0, 5]" "[0]" scenario_state 0 True 3] by simp

section \<open>The rows of fill_rect\<close>

text \<open>
  C5. \<open>fill_rect\<close> at the rectangle of size 1 by 1 with corner \<open>(0, 0)\<close> draws nothing,
  although \<open>draw_pixel\<close> at \<open>(0, 0)\<close> is inside the clip rectangle and would store the
  colour at address 110; at the rectangle of size 3 by 3 it draws the middle row
  \<open>y = 1\<close> (addresses 99 to 101) and neither the row \<open>y = 0\<close> nor the row \<open>y = 2\<close>. Its inner
  loop runs over \<open>y1 < y < y2\<close>, the bounds of the second loop of \<open>draw_rect\<close>.
\<close>

theorem fill_rect_skips_rows:
  "fill_rect scenario_surface 0 0 1 1 7 blank = blank \<and>
   draw_pixel scenario_surface 0 0 7 blank = blank(110 := 7) \<and>
   fill_rect scenario_surface 0 0 3 3 7 blank = blank(99 := 7, 100 := 7, 101 := 7)"
  by (simp add: fill_rect_def draw_pixel_def scenario_surface_def upto.simps)

section \<open>Termination of the line loops\<close>

text \<open>The \<open>while\<close> loops of \<open>draw_line\<close> end, since \<open>ix\<close> and \<open>iy\<close> point from the first
  end point to the second; so \<open>draw_line\<close>, and with in-range indices the loops of
  \<open>plot\<close> and \<open>bars\<close>, return.\<close>

lemma line_loop_x_returns:
  assumes "ix = 1 \<and> x \<le> x2 \<or> ix = - 1 \<and> x2 \<le> x"
  shows "\<exists>r. line_loop_x s x y x2 ix iy err dx dy c m = Some r"
  using assms
proof (induction "nat \<bar>x2 - x\<bar>" arbitrary: x y err m)
  case 0
  then have "x = x2" by simp
  then show ?case by (subst line_loop_x.simps) simp
next
  case (Suc n)
  then have ne: "x \<noteq> x2" by auto
  have "n = nat \<bar>x2 - (x + ix)\<bar>"
    using Suc.hyps(2) Suc.prems by auto
  moreover have "ix = 1 \<and> x + ix \<le> x2 \<or> ix = - 1 \<and> x2 \<le> x + ix"
    using Suc.prems ne by auto
  ultimately have "\<exists>r. line_loop_x s (x + ix) y' x2 ix iy err' dx dy c m' = Some r"
    for y' err' m'
    using Suc.hyps(1) by blast
  then show ?case using ne by (subst line_loop_x.simps) simp
qed

lemma line_loop_y_returns:
  assumes "iy = 1 \<and> y \<le> y2 \<or> iy = - 1 \<and> y2 \<le> y"
  shows "\<exists>r. line_loop_y s x y y2 ix iy err dx dy c m = Some r"
  using assms
proof (induction "nat \<bar>y2 - y\<bar>" arbitrary: x y err m)
  case 0
  then have "y = y2" by simp
  then show ?case by (subst line_loop_y.simps) simp
next
  case (Suc n)
  then have ne: "y \<noteq> y2" by auto
  have "n = nat \<bar>y2 - (y + iy)\<bar>"
    using Suc.hyps(2) Suc.prems by auto
  moreover have "iy = 1 \<and> y + iy \<le> y2 \<or> iy = - 1 \<and> y2 \<le> y + iy"
    using Suc.prems ne by auto
  ultimately have "\<exists>r. line_loop_y s x' (y + iy) y2 ix iy err' dx dy c m' = Some r"
    for x' err' m'
    using Suc.hyps(1) by blast
  then show ?case using ne by (subst line_loop_y.simps) simp
qed

lemma case_returns:
  "\<exists>r. l = Some r \<Longrightarrow>
     \<exists>m'. (case l of None \<Rightarrow> None | Some (x, y, m') \<Rightarrow> Some (g x y m')) = Some m'"
  by (auto split: prod.splits)

lemma draw_line_returns: "\<exists>m'. draw_line s x1 y1 x2 y2 c m = Some m'"
proof (cases "(if x2 \<ge> x1 then x2 - x1 else x1 - x2) = 0")
  case True
  show ?thesis
    unfolding draw_line_def Let_def by (simp only: if_P [OF True]) blast
next
  case nx: False
  show ?thesis
  proof (cases "(if y2 \<ge> y1 then y2 - y1 else y1 - y2) = 0")
    case True
    show ?thesis
      unfolding draw_line_def Let_def
      by (simp only: if_not_P [OF nx] if_P [OF True]) blast
  next
    case ny: False
    show ?thesis
    proof (cases "(if x2 \<ge> x1 then x2 - x1 else x1 - x2) \<ge> (if y2 \<ge> y1 then y2 - y1 else y1 - y2)")
      case True
      show ?thesis
        unfolding draw_line_def Let_def
        by (simp only: if_not_P [OF nx] if_not_P [OF ny] if_P [OF True])
          (rule case_returns, rule line_loop_x_returns, auto)
    next
      case False
      show ?thesis
        unfolding draw_line_def Let_def
        by (simp only: if_not_P [OF nx] if_not_P [OF ny] if_not_P [OF False])
          (rule case_returns, rule line_loop_y_returns, auto)
    qed
  qed
qed

lemma plot_loop_returns:
  assumes "\<forall>i\<in>set js. 0 \<le> i \<and> i < int (length data_x) \<and> i < int (length data_y)"
  shows "\<exists>m'. plot_loop s data_x data_y marker lc sc js last_x last_y m = Some (Inr m')"
  using assms
proof (induction js arbitrary: last_x last_y m)
  case Nil
  then show ?case by simp
next
  case (Cons i js)
  then have gx: "get data_x i = Inr (data_x ! nat i)" and gy: "get data_y i = Inr (data_y ! nat i)"
    by (simp_all add: get_def)
  have ih: "\<exists>m'. plot_loop s data_x data_y marker lc sc js lx ly m0 = Some (Inr m')" for lx ly m0
    using Cons by simp
  obtain m1 where m1: "draw_line s last_x last_y (image_x s (data_x ! nat i))
      (image_y s (data_y ! nat i)) lc m = Some m1"
    using draw_line_returns by blast
  show ?case
    using ih by (simp add: gx gy m1 Let_def)
qed

lemma lift_returns:
  "\<exists>m'. r = Some (Inr m') \<Longrightarrow>
     \<exists>st'. (case r of None \<Rightarrow> None | Some (Inl e) \<Rightarrow> Some (Inl e)
            | Some (Inr m') \<Rightarrow> Some (Inr (f m'))) = Some (Inr st')"
  by auto

lemma plot_returns:
  assumes "length data_x = length data_y" "data_x \<noteq> []"
  shows "\<exists>st'. plot st data_x data_y color_idx marker = Some (Inr st')"
proof -
  from assms have ne: "0 < length data_x" "0 < length data_y"
    by auto
  then have g: "get data_x 0 = Inr (data_x ! 0)" "get data_y 0 = Inr (data_y ! 0)"
    by (simp_all add: get_def)
  have r: "\<forall>i\<in>set [1..int (length data_y) - 1].
      0 \<le> i \<and> i < int (length data_x) \<and> i < int (length data_y)"
    using assms by auto
  show ?thesis
    unfolding plot_def Let_def g using assms(1)
    by (simp only: refl not_True_eq_False if_False sum.case)
      (rule lift_returns, rule plot_loop_returns [OF r])
qed

lemma bars_loop_returns:
  assumes "\<forall>i\<in>set js. 0 \<le> i \<and> i < int (length data_x) \<and> i < int (length data_y)"
  shows "\<exists>m'. bars_loop s data_x data_y color width y0 js m = Some (Inr m')"
  using assms
proof (induction js arbitrary: m)
  case Nil
  then show ?case by simp
next
  case (Cons i js)
  then have gx: "get data_x i = Inr (data_x ! nat i)" and gy: "get data_y i = Inr (data_y ! nat i)"
    by (simp_all add: get_def)
  have ih: "\<exists>m'. bars_loop s data_x data_y color width y0 js m0 = Some (Inr m')" for m0
    using Cons by simp
  obtain m1 where m1: "draw_line s (image_x s (data_x ! nat i) - cdiv width 2) y0
      (image_x s (data_x ! nat i) + cdiv width 2) y0 color m = Some m1"
    using draw_line_returns by blast
  show ?case
    using ih by (simp add: gx gy m1 Let_def)
qed

lemma bars_returns:
  assumes "length data_x = length data_y"
  shows "\<exists>st'. bars st data_x data_y color_idx width = Some (Inr st')"
proof -
  have r: "\<forall>i\<in>set [0..int (length data_y) - 1].
      0 \<le> i \<and> i < int (length data_x) \<and> i < int (length data_y)"
    using assms by auto
  show ?thesis
    unfolding bars_def Let_def using assms
    by (simp only: refl not_True_eq_False if_False)
      (rule lift_returns, rule bars_loop_returns [OF r])
qed

section \<open>The array reads of plot\<close>

text \<open>
  C10. On two empty arrays \<open>plot\<close> passes the length check and its read of element 0 is
  out of bounds. On two arrays of the same length with at least one element, \<open>plot\<close>
  returns: every read of \<open>data_x\<close> and \<open>data_y\<close> is in bounds (and every line loop ends).
\<close>

theorem plot_reads_in_bounds:
  "plot st [] [] color_idx marker = Some (Inl OutOfBounds) \<and>
   (length data_x = length data_y \<and> data_x \<noteq> [] \<longrightarrow>
      (\<exists>st'. plot st data_x data_y color_idx marker = Some (Inr st')))"
proof (intro conjI impI)
  show "plot st [] [] color_idx marker = Some (Inl OutOfBounds)"
    by (simp add: plot_def get_def)
next
  assume "length data_x = length data_y \<and> data_x \<noteq> []"
  then show "\<exists>st'. plot st data_x data_y color_idx marker = Some (Inr st')"
    by (simp add: plot_returns)
qed

theorem plot_reads_in_bounds_witness:
  "plot scenario_state [] [] 0 True = Some (Inl OutOfBounds) \<and>
   (\<exists>st'. plot scenario_state [0, 5] [0, 5] 0 True = Some (Inr st'))"
  using plot_reads_in_bounds [where st = scenario_state and color_idx = 0 and marker = True
      and data_x = "[0, 5]" and data_y = "[0, 5]"]
  by simp

section \<open>The clip rectangle of the surface\<close>

lemma plot_surf:
  "plot st data_x data_y color_idx marker = Some (Inr st') \<Longrightarrow> surf st' = surf st"
  unfolding plot_def Let_def
  by (cases "length data_x \<noteq> length data_y"; cases "get data_x 0"; cases "get data_y 0")
    (auto split: option.splits sum.splits)

lemma bars_surf:
  "bars st data_x data_y color_idx width = Some (Inr st') \<Longrightarrow> surf st' = surf st"
  unfolding bars_def Let_def
  by (cases "length data_x \<noteq> length data_y") (auto split: option.splits sum.splits)

text \<open>
  C9. A call of \<open>surface_set_geometry\<close> that returns leaves a surface with
  \<open>min_x = offset_x\<close>, \<open>max_x = offset_x + plot_width\<close>, \<open>min_y = offset_y\<close> and
  \<open>max_y = offset_y + plot_height\<close>. \<open>surface_set_view\<close>, \<open>surface_clear\<close>, \<open>plot\<close> and
  \<open>bars\<close> change none of these eight fields, so they preserve the invariant.
\<close>

theorem geometry_invariant:
  "(surface_set_geometry st image_bits ll image_height geometry = Inr st' \<longrightarrow>
      clip_invariant (surf st')) \<and>
   (surface_set_view st axes transform = Inr st' \<longrightarrow>
      geometry_of (surf st') = geometry_of (surf st)) \<and>
   (surface_clear st = Inr st' \<longrightarrow> geometry_of (surf st') = geometry_of (surf st)) \<and>
   (plot st data_x data_y color_idx marker = Some (Inr st') \<longrightarrow>
      geometry_of (surf st') = geometry_of (surf st)) \<and>
   (bars st data_x data_y color_idx width = Some (Inr st') \<longrightarrow>
      geometry_of (surf st') = geometry_of (surf st)) \<and>
   (geometry_of (surf st') = geometry_of (surf st) \<and> clip_invariant (surf st) \<longrightarrow>
      clip_invariant (surf st'))"
proof (intro conjI impI)
  assume "surface_set_geometry st image_bits ll image_height geometry = Inr st'"
  then show "clip_invariant (surf st')"
    by (auto simp: surface_set_geometry_def clip_invariant_def Let_def split: sum.splits)
next
  assume "surface_set_view st axes transform = Inr st'"
  then show "geometry_of (surf st') = geometry_of (surf st)"
    by (auto simp: surface_set_view_def geometry_of_def split: sum.splits)
next
  assume "surface_clear st = Inr st'"
  then show "geometry_of (surf st') = geometry_of (surf st)"
    by (auto simp: surface_clear_def geometry_of_def Let_def split: if_splits)
next
  assume "plot st data_x data_y color_idx marker = Some (Inr st')"
  then show "geometry_of (surf st') = geometry_of (surf st)"
    by (simp add: plot_surf)
next
  assume "bars st data_x data_y color_idx width = Some (Inr st')"
  then show "geometry_of (surf st') = geometry_of (surf st)"
    by (simp add: bars_surf)
next
  assume "geometry_of (surf st') = geometry_of (surf st) \<and> clip_invariant (surf st)"
  then show "clip_invariant (surf st')"
    by (simp add: geometry_of_def clip_invariant_def)
qed

theorem geometry_invariant_witness:
  "(\<exists>st'. surface_set_geometry scenario_state 0 20 20 [1, 2, 3, 4] = Inr st' \<and>
          clip_invariant (surf st')) \<and>
   (\<exists>st'. surface_set_view scenario_state [0, 1, 2, 3] [1, 2] = Inr st' \<and>
          geometry_of (surf st') = geometry_of scenario_surface \<and>
          clip_invariant (surf st')) \<and>
   (\<exists>st'. surface_clear scenario_state = Inr st' \<and>
          geometry_of (surf st') = geometry_of scenario_surface) \<and>
   (\<exists>st'. plot scenario_state [0, 5] [0, 5] 0 False = Some (Inr st') \<and>
          geometry_of (surf st') = geometry_of scenario_surface) \<and>
   (\<exists>st'. bars scenario_state [2, 5] [0, 5] 0 3 = Some (Inr st') \<and>
          geometry_of (surf st') = geometry_of scenario_surface)"
proof -
  have s: "surf scenario_state = scenario_surface"
    by (simp add: scenario_state_def)
  have i: "clip_invariant (surf scenario_state)"
    by (simp add: scenario_state_def scenario_surface_def clip_invariant_def)
  obtain g where g: "surface_set_geometry scenario_state 0 20 20 [1, 2, 3, 4] = Inr g"
    by (simp add: surface_set_geometry_def get_def)
  obtain v where v: "surface_set_view scenario_state [0, 1, 2, 3] [1, 2] = Inr v"
    by (simp add: surface_set_view_def get_def)
  obtain c where c: "surface_clear scenario_state = Inr c"
    by (simp add: surface_clear_def scenario_state_def scenario_surface_def Let_def)
  obtain p where p: "plot scenario_state [0, 5] [0, 5] 0 False = Some (Inr p)"
    using plot_returns [of "[0, 5]" "[0, 5]" scenario_state 0 False] by auto
  obtain b where b: "bars scenario_state [2, 5] [0, 5] 0 3 = Some (Inr b)"
    using bars_returns [of "[2, 5]" "[0, 5]" scenario_state 0 3] by auto
  from g geometry_invariant [where st = scenario_state and st' = g and image_bits = 0
      and ll = 20 and image_height = 20 and geometry = "[1, 2, 3, 4]"]
  have 1: "clip_invariant (surf g)" by simp
  from v i geometry_invariant [where st = scenario_state and st' = v
      and axes = "[0, 1, 2, 3]" and transform = "[1, 2]"]
  have 2: "geometry_of (surf v) = geometry_of scenario_surface \<and> clip_invariant (surf v)"
    by (simp add: s)
  from c geometry_invariant [where st = scenario_state and st' = c]
  have 3: "geometry_of (surf c) = geometry_of scenario_surface" by (simp add: s)
  from p geometry_invariant [where st = scenario_state and st' = p and data_x = "[0, 5]"
      and data_y = "[0, 5]" and color_idx = 0 and marker = False]
  have 4: "geometry_of (surf p) = geometry_of scenario_surface" by (simp add: s)
  from b geometry_invariant [where st = scenario_state and st' = b and data_x = "[2, 5]"
      and data_y = "[0, 5]" and color_idx = 0 and width = 3]
  have 5: "geometry_of (surf b) = geometry_of scenario_surface" by (simp add: s)
  from g v c p b 1 2 3 4 5 show ?thesis by simp
qed

section \<open>The running maximum of add_pixel\<close>

lemma for_loop_preserves:
  assumes "for_loop js body s = Inr s'" and "P s"
    and "\<And>i s t. body i s = Inr t \<Longrightarrow> P s \<Longrightarrow> P t"
  shows "P s'"
  using assms(1,2)
proof (induction js arbitrary: s)
  case Nil
  then show ?case by simp
next
  case (Cons i js)
  then show ?case
    by (cases "body i s") (auto intro: assms(3))
qed

lemma add_pixel_ge:
  assumes "add_pixel mtx pos size_x size_y bits prior_max m = Inr (mtx', m', mx)"
  shows "prior_max \<le> mx"
proof -
  let ?P = "\<lambda>(a :: int list list, b :: memory, v :: 8 word). prior_max \<le> v"
  have "?P (mtx', m', mx)"
  proof (rule for_loop_preserves [where P = ?P, OF assms [unfolded add_pixel_def Let_def]])
    show "?P (mtx, m, prior_max)" by simp
  next
    fix i s t
    assume "(case s of (mtx, m, max_value) \<Rightarrow>
              (case get2 pos i 0 of Inl e \<Rightarrow> Inl e | Inr x \<Rightarrow>
              (case get2 pos i 1 of Inl e \<Rightarrow> Inl e | Inr y \<Rightarrow>
              (case get2 mtx y x of Inl e \<Rightarrow> Inl e | Inr n \<Rightarrow>
              (case set2 mtx y x (n + 1) of Inl e \<Rightarrow> Inl e | Inr mtx' \<Rightarrow>
              (case scaled (n + 1) of Inl e \<Rightarrow> Inl e | Inr scaled_value \<Rightarrow>
                Inr (mtx',
                     m(bits + ((size_y - 1 - y) * size_x + x) := scaled_value),
                     max scaled_value max_value))))))) = Inr t" and "?P s"
    then show "?P t"
      by (auto split: prod.splits sum.splits simp: max_def)
  qed
  then show ?thesis by simp
qed

text \<open>
  C8. A call of \<open>add_pixel\<close> that returns, returns a maximum not below \<open>prior_max\<close>; so
  over two calls, the second seeded with the result of the first, the maximum does not
  decrease. On an empty position list it returns \<open>prior_max\<close> and leaves the count matrix
  and the memory (the image buffer) as they are.
\<close>

theorem add_pixel_max:
  "(add_pixel mtx pos size_x size_y bits prior_max m = Inr (mtx', m', mx) \<longrightarrow>
      prior_max \<le> mx) \<and>
   (add_pixel mtx pos size_x size_y bits prior_max m = Inr (mtx', m', mx) \<and>
    add_pixel mtx' pos' size_x size_y bits mx m' = Inr (mtx'', m'', mx') \<longrightarrow>
      prior_max \<le> mx \<and> mx \<le> mx') \<and>
   add_pixel mtx [] size_x size_y bits prior_max m = Inr (mtx, m, prior_max)"
proof (intro conjI impI)
  assume "add_pixel mtx pos size_x size_y bits prior_max m = Inr (mtx', m', mx)"
  then show "prior_max \<le> mx" by (rule add_pixel_ge)
next
  assume a: "add_pixel mtx pos size_x size_y bits prior_max m = Inr (mtx', m', mx) \<and>
    add_pixel mtx' pos' size_x size_y bits mx m' = Inr (mtx'', m'', mx')"
  from a show "prior_max \<le> mx" by (blast intro: add_pixel_ge)
  from a show "mx \<le> mx'" by (blast intro: add_pixel_ge)
next
  show "add_pixel mtx [] size_x size_y bits prior_max m = Inr (mtx, m, prior_max)"
    by (simp add: add_pixel_def)
qed

theorem add_pixel_max_witness:
  "add_pixel [[0, 0], [0, 0]] [[0, 1], [0, 1]] 2 2 0 1 blank =
     Inr ([[0, 0], [2, 0]], blank(0 := 2), 2) \<and>
   add_pixel [[0, 0], [2, 0]] [[1, 0]] 2 2 0 2 (blank(0 := 2)) =
     Inr ([[0, 1], [2, 0]], blank(0 := 2, 3 := 1), 2) \<and>
   (1 :: 8 word) \<le> 2 \<and> (2 :: 8 word) \<le> 2 \<and>
   add_pixel [[0, 0], [0, 0]] [] 2 2 0 1 blank = Inr ([[0, 0], [0, 0]], blank, 1)"
proof -
  have e1: "add_pixel [[0, 0], [0, 0]] [[0, 1], [0, 1]] 2 2 0 1 blank =
      Inr ([[0, 0], [2, 0]], blank(0 := 2), 2)"
    by (simp add: add_pixel_def upto.simps get2_def get_def set2_def scaled_def to_int_def
        rnd_def round_to_def expo_def compute_bitlen round_even_def)
  have e2: "add_pixel [[0, 0], [2, 0]] [[1, 0]] 2 2 0 2 (blank(0 := 2)) =
      Inr ([[0, 1], [2, 0]], blank(0 := 2, 3 := 1), 2)"
    by (simp add: add_pixel_def upto.simps get2_def get_def set2_def scaled_def to_int_def
        rnd_def round_to_def expo_def compute_bitlen round_even_def)
  from e1 e2 add_pixel_max [where mtx = "[[0, 0], [0, 0]]" and pos = "[[0, 1], [0, 1]]"
      and size_x = 2 and size_y = 2 and bits = 0 and prior_max = 1 and m = blank
      and mtx' = "[[0, 0], [2, 0]]" and m' = "blank(0 := 2)" and mx = 2
      and pos' = "[[1, 0]]" and mtx'' = "[[0, 1], [2, 0]]"
      and m'' = "blank(0 := 2, 3 := 1)" and mx' = 2]
  show ?thesis by simp
qed

section \<open>Loops that fill an array\<close>

text \<open>A \<open>for\<close> loop over \<open>[lo..hi]\<close> with an invariant indexed by the loop variable; a loop
  that stores one value per iteration into row \<open>i\<close>; and a loop over the rows.\<close>

lemma for_loop_upto:
  assumes "P lo s"
    and "\<And>i s. lo \<le> i \<Longrightarrow> i \<le> hi \<Longrightarrow> P i s \<Longrightarrow> \<exists>s'. body i s = Inr s' \<and> P (i + 1) s'"
  shows "\<exists>s'. for_loop [lo..hi] body s = Inr s' \<and> P (max lo (hi + 1)) s'"
  using assms
proof (induction "nat (hi + 1 - lo)" arbitrary: lo s)
  case 0
  then have "hi < lo" by simp
  then have "[lo..hi] = []" "max lo (hi + 1) = lo" by simp_all
  with 0 show ?case by simp
next
  case (Suc n)
  then have le: "lo \<le> hi" by simp
  obtain s1 where s1: "body lo s = Inr s1" "P (lo + 1) s1"
    using Suc.prems(2) [of lo s] le Suc.prems(1) by auto
  have n: "n = nat (hi + 1 - (lo + 1))"
    using Suc.hyps(2) by simp
  have "\<exists>s'. for_loop [lo + 1..hi] body s1 = Inr s' \<and> P (max (lo + 1) (hi + 1)) s'"
  proof (rule Suc.hyps(1) [OF n s1(2)])
    fix i t
    assume "lo + 1 \<le> i" "i \<le> hi" "P i t"
    then show "\<exists>s'. body i t = Inr s' \<and> P (i + 1) s'"
      using Suc.prems(2) [of i t] by simp
  qed
  then show ?case
    using le s1 by (simp add: upto_rec1 max_def)
qed

lemma set2_ok:
  "0 \<le> i \<Longrightarrow> i < int (length a) \<Longrightarrow> 0 \<le> j \<Longrightarrow> j < int (length (a ! nat i)) \<Longrightarrow>
     set2 a i j v = Inr (a[nat i := (a ! nat i)[nat j := v]])"
  by (simp add: set2_def)

lemma update_shape: "map length (a[i := (a ! i)[j := v]]) = map length a"
  by (cases "i < length a") (simp_all add: map_update list_update_same_conv list_update_beyond not_less)

lemma update_cell:
  "i < length a \<Longrightarrow> j < length (a ! i) \<Longrightarrow>
     a[i := (a ! i)[j := v]] ! i' ! j' = (if i' = i \<and> j' = j then v else a ! i' ! j')"
  by (cases "i' = i"; cases "j' = j") simp_all

lemma shape_length: "map length a' = map length a \<Longrightarrow> length a' = length a"
  by (metis length_map)

lemma shape_row:
  "map length a' = map length a \<Longrightarrow> i < length a \<Longrightarrow> length (a' ! i) = length (a ! i)"
  by (metis length_map nth_map)

lemma get2_ok:
  "0 \<le> i \<Longrightarrow> i < int (length a) \<Longrightarrow> 0 \<le> j \<Longrightarrow> j < int (length (a ! nat i)) \<Longrightarrow>
     get2 a i j = Inr (a ! nat i ! nat j)"
  by (simp add: get2_def get_def)


lemma row_loop:
  fixes a :: "'a list list"
  assumes i: "0 \<le> i" "i < int (length a)"
    and F0: "\<And>c. F 0 c = None"
    and Fs: "\<And>j c. 0 \<le> j \<Longrightarrow> j < w \<Longrightarrow>
               F (j + 1) c = (if c = nat (col j) then Some (V j) else F j c)"
    and col: "\<And>j. 0 \<le> j \<Longrightarrow> j < w \<Longrightarrow> 0 \<le> col j \<and> col j < int (length (a ! nat i))"
    and body: "\<And>j b. 0 \<le> j \<Longrightarrow> j < w \<Longrightarrow> body j b = set2 b i (col j) (V j)"
  shows "\<exists>a'. for_loop [0..w - 1] body a = Inr a' \<and> map length a' = map length a \<and>
           (\<forall>i' c. a' ! i' ! c =
              (if i' = nat i then (case F (max 0 w) c of Some v \<Rightarrow> v | None \<Rightarrow> a ! i' ! c)
               else a ! i' ! c))"
proof -
  let ?Q = "\<lambda>j b. map length b = map length a \<and>
           (\<forall>i' c. b ! i' ! c =
              (if i' = nat i then (case F j c of Some v \<Rightarrow> v | None \<Rightarrow> a ! i' ! c)
               else a ! i' ! c))"
  have "\<exists>s'. for_loop [0..w - 1] body a = Inr s' \<and> ?Q (max 0 (w - 1 + 1)) s'"
  proof (rule for_loop_upto)
    show "?Q 0 a" by (simp add: F0)
  next
    fix j b
    assume j: "0 \<le> j" "j \<le> w - 1" and Q: "?Q j b"
    from Q have sh: "map length b = map length a" by simp
    from i have ni: "nat i < length a" by simp
    have len: "length b = length a" "length (b ! nat i) = length (a ! nat i)"
      using shape_length [OF sh] shape_row [OF sh ni] by simp_all
    from j col [of j] have cj: "0 \<le> col j" "col j < int (length (a ! nat i))" by simp_all
    let ?b = "b[nat i := (b ! nat i)[nat (col j) := V j]]"
    have 1: "body j b = Inr ?b"
      using body [of j b] j set2_ok [of i b "col j" "V j"] i cj len by simp
    have 2: "map length ?b = map length a"
      using update_shape [of b "nat i" "nat (col j)" "V j"] sh by simp
    have 3: "?b ! i' ! c =
        (if i' = nat i then (case F (j + 1) c of Some v \<Rightarrow> v | None \<Rightarrow> a ! i' ! c)
         else a ! i' ! c)" for i' c
    proof -
      have "?b ! i' ! c = (if i' = nat i \<and> c = nat (col j) then V j else b ! i' ! c)"
        using update_cell [of "nat i" b "nat (col j)" "V j" i' c] ni len cj by simp
      then show ?thesis
        using Q Fs [of j c] j by auto
    qed
    from 1 2 3 show "\<exists>s'. body j b = Inr s' \<and> ?Q (j + 1) s'" by blast
  qed
  then show ?thesis by (simp only: diff_add_cancel)
qed

lemma rows_loop:
  fixes a :: "'a list list"
  assumes row: "\<And>i b. 0 \<le> i \<Longrightarrow> i < n \<Longrightarrow> map length b = map length a \<Longrightarrow>
       \<exists>b'. rowbody i b = Inr b' \<and> map length b' = map length b \<and>
          (\<forall>i' c. b' ! i' ! c = (if i' = nat i then R i c (b ! i' ! c) else b ! i' ! c))"
  shows "\<exists>a'. for_loop [0..n - 1] rowbody a = Inr a' \<and> map length a' = map length a \<and>
           (\<forall>i' c. a' ! i' ! c =
              (if int i' < n then R (int i') c (a ! i' ! c) else a ! i' ! c))"
proof -
  let ?Q = "\<lambda>i b. map length b = map length a \<and>
           (\<forall>i' c. b ! i' ! c =
              (if int i' < i then R (int i') c (a ! i' ! c) else a ! i' ! c))"
  have "\<exists>s'. for_loop [0..n - 1] rowbody a = Inr s' \<and> ?Q (max 0 (n - 1 + 1)) s'"
  proof (rule for_loop_upto)
    show "?Q 0 a" by simp
  next
    fix i b
    assume i: "0 \<le> i" "i \<le> n - 1" and Q: "?Q i b"
    from Q have sh: "map length b = map length a" by simp
    from row [of i b] i sh obtain b' where b': "rowbody i b = Inr b'"
      "map length b' = map length b"
      "\<And>i' c. b' ! i' ! c = (if i' = nat i then R i c (b ! i' ! c) else b ! i' ! c)"
      by auto
    have "b' ! i' ! c = (if int i' < i + 1 then R (int i') c (a ! i' ! c) else a ! i' ! c)"
      for i' c
      using b'(3) [of i' c] Q i by auto
    with b'(1,2) sh show "\<exists>s'. rowbody i b = Inr s' \<and> ?Q (i + 1) s'" by simp
  qed
  moreover have "(int i' < max 0 (n - 1 + 1)) = (int i' < n)" for i'
    by auto
  ultimately show ?thesis by simp
qed

section \<open>Rounding to a double\<close>

text \<open>The binary exponent brackets a positive number. Rounding keeps a nonnegative
  number nonnegative, carries no number across a multiple of \<open>1/2\<close> below \<open>2 ^ 52\<close>,
  exceeds a number by at most the fraction \<open>2 ^ -53\<close> of it, and leaves a double as it
  is.\<close>

lemma powi_nat: "0 \<le> n \<Longrightarrow> (2 :: real) powi n = 2 ^ nat n"
  by (simp add: power_int_def)

lemma expo_bounds:
  assumes "0 < x"
  shows "2 powi expo x \<le> x" and "x < 2 powi (expo x + 1)"
proof -
  have "2 powi expo x \<le> x \<and> x < 2 powi (expo x + 1)"
  proof (cases "1 \<le> x")
    case True
    define m where "m = \<lfloor>x\<rfloor>"
    from True have m: "0 < m" by (simp add: m_def)
    from True have e: "expo x = bitlen m - 1" by (simp add: expo_def m_def)
    from m have b: "1 \<le> bitlen m" by (simp add: bitlen_alt_def)
    from bitlen_bounds [OF m] have lo: "2 ^ nat (bitlen m - 1) \<le> m" and hi: "m < 2 ^ nat (bitlen m)"
      by simp_all
    have "(2 :: real) ^ nat (bitlen m - 1) \<le> of_int m"
      using lo by (metis of_int_le_iff of_int_numeral of_int_power)
    also have "\<dots> \<le> x" by (simp add: m_def)
    finally have 1: "2 powi expo x \<le> x" using b by (simp add: e powi_nat)
    from hi have "m + 1 \<le> 2 ^ nat (bitlen m)" by simp
    then have "of_int (m + 1) \<le> (2 :: real) ^ nat (bitlen m)"
      by (metis of_int_le_iff of_int_numeral of_int_power)
    moreover have "x < of_int (m + 1)" unfolding m_def by linarith
    ultimately have "x < 2 ^ nat (bitlen m)" by linarith
    then have 2: "x < 2 powi (expo x + 1)" using b by (simp add: e powi_nat)
    from 1 2 show ?thesis ..
  next
    case False
    define y where "y = 1 / x"
    define c where "c = \<lceil>y\<rceil>"
    from False assms have y1: "1 < y" by (simp add: y_def)
    then have c2: "2 \<le> c" unfolding c_def by (simp add: le_ceiling_iff)
    then have m: "0 < c - 1" by simp
    from False assms have e: "expo x = - bitlen (c - 1)" by (simp add: expo_def c_def y_def)
    from m have b: "1 \<le> bitlen (c - 1)" by (simp add: bitlen_alt_def)
    from bitlen_bounds [OF m] have lo: "2 ^ nat (bitlen (c - 1) - 1) \<le> c - 1"
      and hi: "c - 1 < 2 ^ nat (bitlen (c - 1))" by simp_all
    from hi have "c \<le> 2 ^ nat (bitlen (c - 1))" by simp
    then have "of_int c \<le> (2 :: real) ^ nat (bitlen (c - 1))" by simp
    moreover have "y \<le> of_int c" by (simp add: c_def)
    ultimately have "y \<le> 2 ^ nat (bitlen (c - 1))" by linarith
    then have "1 / 2 ^ nat (bitlen (c - 1)) \<le> x"
      using assms by (simp add: y_def field_simps)
    moreover have "(2 :: real) powi (- bitlen (c - 1)) = 1 / 2 ^ nat (bitlen (c - 1))"
      using b by (simp add: power_int_minus powi_nat field_simps)
    ultimately have 1: "2 powi expo x \<le> x" by (simp add: e)
    have "(2 :: real) ^ nat (bitlen (c - 1) - 1) \<le> of_int (c - 1)"
      using lo by (metis of_int_le_iff of_int_numeral of_int_power)
    moreover have "of_int (c - 1) < y" unfolding c_def by linarith
    ultimately have "2 ^ nat (bitlen (c - 1) - 1) < y" by linarith
    then have "x < 1 / 2 ^ nat (bitlen (c - 1) - 1)"
      using assms by (simp add: y_def field_simps)
    moreover have "(2 :: real) powi (- bitlen (c - 1) + 1) = 1 / 2 ^ nat (bitlen (c - 1) - 1)"
    proof -
      have "- bitlen (c - 1) + 1 = - (bitlen (c - 1) - 1)" by simp
      then show ?thesis using b by (simp only: power_int_minus powi_nat) (simp add: powi_nat field_simps)
    qed
    ultimately have 2: "x < 2 powi (expo x + 1)" by (simp add: e)
    from 1 2 show ?thesis ..
  qed
  then show "2 powi expo x \<le> x" and "x < 2 powi (expo x + 1)" by simp_all
qed

lemma round_even_le: "q \<le> of_int N \<Longrightarrow> round_even q \<le> N"
proof -
  assume q: "q \<le> of_int N"
  then have f: "\<lfloor>q\<rfloor> \<le> N" by (simp add: floor_le_iff)
  show ?thesis
  proof (cases "\<lfloor>q\<rfloor> = N")
    case True
    with q have "q - of_int \<lfloor>q\<rfloor> \<le> 0" by simp
    then show ?thesis using True by (simp add: round_even_def Let_def)
  next
    case False
    with f have "\<lfloor>q\<rfloor> + 1 \<le> N" by simp
    then show ?thesis by (simp add: round_even_def Let_def)
  qed
qed

lemma round_even_ge: "of_int N \<le> q \<Longrightarrow> N \<le> round_even q"
proof -
  assume "of_int N \<le> q"
  then have "N \<le> \<lfloor>q\<rfloor>" by (simp add: le_floor_iff)
  then show ?thesis by (simp add: round_even_def Let_def)
qed

lemma round_even_upper: "of_int (round_even q) \<le> q + 1 / 2"
proof -
  have c: "round_even q = \<lfloor>q\<rfloor> \<or>
      (round_even q = \<lfloor>q\<rfloor> + 1 \<and> 1 / 2 \<le> q - of_int \<lfloor>q\<rfloor>)"
    by (simp add: round_even_def Let_def)
  show ?thesis
  proof (cases "round_even q = \<lfloor>q\<rfloor>")
    case True
    then have "of_int (round_even q) = (of_int \<lfloor>q\<rfloor> :: real)" by simp
    with of_int_floor_le [of q] show ?thesis by linarith
  next
    case False
    with c have "round_even q = \<lfloor>q\<rfloor> + 1" and h: "1 / 2 \<le> q - of_int \<lfloor>q\<rfloor>" by simp_all
    then have "of_int (round_even q) = (of_int \<lfloor>q\<rfloor> :: real) + 1" by simp
    with h show ?thesis by linarith
  qed
qed

lemma rnd_nonneg: "0 \<le> x \<Longrightarrow> 0 \<le> rnd x"
proof (cases "x = 0")
  case True
  then show ?thesis by (simp add: rnd_def round_to_def)
next
  case False
  assume "0 \<le> x"
  with False have x: "0 < x" by simp
  let ?u = "(2 :: real) powi (expo x - (53 - 1))"
  have u: "0 < ?u" by simp
  with x have "of_int 0 \<le> x / ?u" by simp
  then have "0 \<le> round_even (x / ?u)" by (rule round_even_ge)
  with u False show ?thesis by (simp add: rnd_def round_to_def)
qed

lemma rnd_le_half_int:
  assumes x: "0 \<le> x" "x \<le> of_int m / 2" and m: "of_int m / 2 < (2 :: real) ^ 52"
  shows "rnd x \<le> of_int m / 2"
proof (cases "x = 0")
  case True
  with x show ?thesis by (simp add: rnd_def round_to_def)
next
  case False
  with x have x0: "0 < x" by simp
  define e where "e = expo x"
  let ?u = "(2 :: real) powi (e - 52)"
  have u: "0 < ?u" by simp
  from expo_bounds(1) [OF x0] x m have lt: "(2 :: real) powi e < 2 ^ 52"
    by (simp add: e_def)
  have e: "e < 52"
  proof (rule ccontr)
    assume "\<not> e < 52"
    then have "52 \<le> e" by simp
    from power_int_increasing [OF this, of "2 :: real"] have "(2 :: real) ^ 52 \<le> 2 powi e"
      by simp
    with lt show False by linarith
  qed
  define N where "N = m * 2 ^ nat (51 - e)"
  have "(2 :: real) powi (52 - e) = 2 * 2 powi (51 - e)"
    using power_int_add_1 [of "2 :: real" "51 - e"] by (simp add: algebra_simps)
  moreover have "(2 :: real) powi (51 - e) = 2 ^ nat (51 - e)"
    using e by (simp add: powi_nat)
  moreover have "1 / ?u = 2 powi (52 - e)"
    using power_int_minus [of "2 :: real" "e - 52"] by (simp add: field_simps)
  ultimately have c: "(of_int m / 2) / ?u = of_int N"
    by (simp add: N_def field_simps)
  from x(2) u have "x / ?u \<le> (of_int m / 2) / ?u"
    by (intro divide_right_mono) simp_all
  then have "round_even (x / ?u) \<le> N"
    unfolding c by (rule round_even_le)
  then have "of_int (round_even (x / ?u)) * ?u \<le> of_int N * ?u"
    using u by (simp add: mult_right_mono)
  also have "of_int N * ?u = of_int m / 2"
    using c u by (simp add: field_simps)
  finally show ?thesis
    using False by (simp add: rnd_def round_to_def e_def)
qed

lemma rnd_upper:
  assumes "0 \<le> x"
  shows "rnd x \<le> x * (1 + 1 / 2 ^ 53)"
proof (cases "x = 0")
  case True
  then show ?thesis by (simp add: rnd_def round_to_def)
next
  case False
  with assms have x0: "0 < x" by simp
  define e where "e = expo x"
  let ?u = "(2 :: real) powi (e - 52)"
  have u: "0 < ?u" by simp
  have "of_int (round_even (x / ?u)) * ?u \<le> (x / ?u + 1 / 2) * ?u"
    using round_even_upper [of "x / ?u"] u by (simp only: mult_right_mono less_imp_le)
  also have "\<dots> = x + ?u / 2"
    using u by (simp add: field_simps)
  also have "?u / 2 = 2 powi e / 2 ^ 53"
    using power_int_diff [of "2 :: real" e 52] by simp
  also have "x + 2 powi e / 2 ^ 53 \<le> x + x / 2 ^ 53"
    using expo_bounds(1) [OF x0] by (simp add: e_def divide_right_mono)
  finally have "of_int (round_even (x / ?u)) * ?u \<le> x * (1 + 1 / 2 ^ 53)"
    by (simp add: algebra_simps)
  then show ?thesis
    using False by (simp add: rnd_def round_to_def e_def)
qed

text \<open>A double rounds to itself.\<close>

lemma expo_unique:
  assumes y: "0 < y" and lo: "2 powi k \<le> y" and hi: "y < 2 powi (k + 1)"
  shows "expo y = k"
proof (rule ccontr)
  assume ne: "expo y \<noteq> k"
  note b = expo_bounds [OF y]
  show False
  proof (cases "expo y < k")
    case True
    then have "expo y + 1 \<le> k" by simp
    from power_int_increasing [OF this, of "2 :: real"] have "(2 :: real) powi (expo y + 1) \<le> 2 powi k"
      by simp
    with b(2) lo show False by linarith
  next
    case False
    with ne have "k + 1 \<le> expo y" by simp
    from power_int_increasing [OF this, of "2 :: real"] have "(2 :: real) powi (k + 1) \<le> 2 powi expo y"
      by simp
    with b(1) hi show False by linarith
  qed
qed

lemma round_even_of_int: "round_even (of_int n) = n"
  by (simp add: round_even_def Let_def)

lemma rnd_idem:
  assumes "0 \<le> x"
  shows "rnd (rnd x) = rnd x"
proof (cases "x = 0")
  case True
  then show ?thesis by (simp add: rnd_def round_to_def)
next
  case False
  with assms have x0: "0 < x" by simp
  define e where "e = expo x"
  define u where "u = (2 :: real) powi (e - 52)"
  define n where "n = round_even (x / u)"
  define r where "r = of_int n * u"
  have u: "0 < u" by (simp add: u_def)
  have r: "rnd x = r"
    using False by (simp add: rnd_def round_to_def e_def u_def n_def r_def)
  have pe: "(2 :: real) powi e = 2 ^ 52 * u"
    using power_int_diff [of "2 :: real" e 52] by (simp add: u_def)
  have pe1: "(2 :: real) powi (e + 1) = 2 ^ 53 * u"
    using power_int_add_1 [of "2 :: real" e] pe by simp
  have pe2: "(2 :: real) powi (e + 1 + 1) = 2 ^ 54 * u"
    using power_int_add_1 [of "2 :: real" "e + 1"] pe1 by simp
  have u1: "(2 :: real) powi (e + 1 - 52) = 2 * u"
  proof -
    have "e + 1 - 52 = e - 52 + 1" by simp
    then show ?thesis
      using power_int_add_1 [of "2 :: real" "e - 52"] by (simp add: u_def)
  qed
  from expo_bounds [OF x0] have xb: "2 ^ 52 * u \<le> x" "x < 2 ^ 53 * u"
    by (simp_all add: e_def [symmetric] pe pe1)
  from xb(1) u have "of_int (2 ^ 52) \<le> x / u" by (simp add: field_simps)
  then have nlo: "2 ^ 52 \<le> n" unfolding n_def by (rule round_even_ge)
  from xb(2) u have "x / u \<le> of_int (2 ^ 53)" by (simp add: field_simps)
  then have nhi: "n \<le> 2 ^ 53" unfolding n_def by (rule round_even_le)
  from nlo have "(2 :: real) ^ 52 \<le> of_int n"
    by (metis of_int_le_iff of_int_numeral of_int_power)
  with u have rlo: "2 ^ 52 * u \<le> r" unfolding r_def by (simp add: mult_right_mono)
  with u have r0: "0 < r" by (smt (verit) mult_pos_pos zero_less_power)
  then have rn: "r \<noteq> 0" by simp
  have a: "rnd r = of_int (round_even (r / 2 powi (expo r - 52))) * 2 powi (expo r - 52)"
    using rn by (simp add: rnd_def round_to_def)
  have "rnd r = r"
  proof (cases "n = 2 ^ 53")
    case True
    then have rv: "r = 2 ^ 53 * u" by (simp add: r_def)
    have "expo r = e + 1"
    proof (rule expo_unique [OF r0])
      show "2 powi (e + 1) \<le> r" unfolding pe1 rv by simp
      show "r < 2 powi (e + 1 + 1)" unfolding pe2 rv using u by simp
    qed
    note ex = this
    have q: "r / (2 * u) = of_int (2 ^ 52)" using u by (simp add: rv)
    show ?thesis
      unfolding a ex u1 q round_even_of_int by (simp add: rv)
  next
    case False
    with nhi have "n + 1 \<le> 2 ^ 53" by simp
    then have "of_int (n + 1) \<le> (2 :: real) ^ 53"
      by (metis of_int_le_iff of_int_numeral of_int_power)
    then have "of_int n < (2 :: real) ^ 53" by simp
    with u have rhi: "r < 2 ^ 53 * u" unfolding r_def by (simp add: mult_strict_right_mono)
    have "expo r = e"
    proof (rule expo_unique [OF r0])
      show "2 powi e \<le> r" unfolding pe using rlo .
      show "r < 2 powi (e + 1)" unfolding pe1 using rhi .
    qed
    note ex = this
    have q: "r / u = of_int n" using u by (simp add: r_def)
    have "rnd r = of_int n * u"
      unfolding a ex u_def [symmetric] q round_even_of_int by (rule refl)
    then show ?thesis by (simp only: r_def)
  qed
  then show ?thesis unfolding r .
qed

section \<open>Block-sum stacking\<close>

lemma to_int_floor: "0 \<le> r \<Longrightarrow> to_int r = \<lfloor>r\<rfloor>"
  by (simp add: to_int_def)

lemma c_int_ok: "0 \<le> r \<Longrightarrow> r < 2 ^ 31 \<Longrightarrow> c_int r = Inr \<lfloor>r\<rfloor>"
  by (simp add: c_int_def to_int_floor)

text \<open>The quotient \<open>L / S\<close>, rounded, for a length \<open>L\<close> and a factor \<open>S \<ge> 1\<close>.\<close>

lemma quotient_bounds:
  assumes S: "1 \<le> S" and L: "0 \<le> L" "L < 2 ^ 31"
  shows "0 \<le> rnd (of_int L / S)" and "rnd (of_int L / S) < 2 ^ 31"
    and "rnd (of_int L / S) * S \<le> of_int L + 1 / 2"
proof -
  from S L have q0: "0 \<le> of_int L / S" by simp
  then show "0 \<le> rnd (of_int L / S)" by (rule rnd_nonneg)
  from S L have "of_int L * 1 \<le> of_int L * S"
    by (intro mult_left_mono) simp_all
  with S have "of_int L / S \<le> of_int L"
    by (simp add: divide_le_eq)
  then have le: "of_int L / S \<le> of_int (2 * L) / 2" by simp
  from L have lt: "of_int L < (2 :: real) ^ 31"
    by (metis of_int_less_iff of_int_numeral of_int_power)
  then have "of_int (2 * L) / 2 < (2 :: real) ^ 52" by simp
  from rnd_le_half_int [OF q0 le this] have "rnd (of_int L / S) \<le> of_int L" by simp
  with lt show "rnd (of_int L / S) < 2 ^ 31" by linarith
  from rnd_upper [OF q0] have "rnd (of_int L / S) \<le> of_int L / S * (1 + 1 / 2 ^ 53)" .
  then have "rnd (of_int L / S) * S \<le> of_int L / S * (1 + 1 / 2 ^ 53) * S"
    using S by (intro mult_right_mono) simp_all
  also have "\<dots> = of_int L + of_int L / 2 ^ 53"
    using S by (simp add: field_simps)
  also have "\<dots> \<le> of_int L + 1 / 2"
    using lt by simp
  finally show "rnd (of_int L / S) * S \<le> of_int L + 1 / 2" .
qed

text \<open>The index \<open><int>(j + k * S)\<close> lies in the row: \<open>0 \<le> j < floor S\<close> and
  \<open>k < <int>(L / S)\<close>. The same bound serves \<open>separate\<close>, whose index is
  \<open><int>(i * D + j)\<close>.\<close>

lemma strided_index:
  assumes S: "1 \<le> S" and L: "0 \<le> L" "L < 2 ^ 31"
    and j: "0 \<le> j" "j < \<lfloor>S\<rfloor>" and k: "0 \<le> k" "k < \<lfloor>rnd (of_int L / S)\<rfloor>"
  shows "0 \<le> rnd (of_int k * S)" and "rnd (of_int k * S) + of_int j \<le> of_int L - 1 / 2"
    and "0 \<le> rnd (of_int j + rnd (of_int k * S))"
    and "rnd (of_int j + rnd (of_int k * S)) \<le> of_int L - 1 / 2"
proof -
  from k have "k + 1 \<le> \<lfloor>rnd (of_int L / S)\<rfloor>" by simp
  then have "of_int (k + 1) \<le> rnd (of_int L / S)" by (simp only: le_floor_iff)
  then have "of_int (k + 1) * S \<le> rnd (of_int L / S) * S"
    using S by (intro mult_right_mono) simp_all
  with quotient_bounds(3) [OF S L] have a: "of_int (k + 1) * S \<le> of_int L + 1 / 2" by linarith
  from j have "j + 1 \<le> \<lfloor>S\<rfloor>" by simp
  then have b: "of_int (j + 1) \<le> S" by (simp only: le_floor_iff)
  have "of_int (k + 1) * S = of_int k * S + S" by (simp add: algebra_simps)
  with a b have c: "of_int k * S \<le> of_int (2 * (L - j) - 1) / 2" by simp
  from L have lt: "of_int L < (2 :: real) ^ 31"
    by (metis of_int_less_iff of_int_numeral of_int_power)
  from S k have k0: "0 \<le> of_int k * S" by simp
  then show r0: "0 \<le> rnd (of_int k * S)" by (rule rnd_nonneg)
  from lt j have "of_int (2 * (L - j) - 1) / 2 < (2 :: real) ^ 52" by simp
  from rnd_le_half_int [OF k0 c this]
  show d: "rnd (of_int k * S) + of_int j \<le> of_int L - 1 / 2" by simp
  from r0 j have s0: "0 \<le> of_int j + rnd (of_int k * S)" by simp
  then show "0 \<le> rnd (of_int j + rnd (of_int k * S))" by (rule rnd_nonneg)
  from d have e: "of_int j + rnd (of_int k * S) \<le> of_int (2 * L - 1) / 2" by simp
  from lt have "of_int (2 * L - 1) / 2 < (2 :: real) ^ 52" by simp
  from rnd_le_half_int [OF s0 e this]
  show "rnd (of_int j + rnd (of_int k * S)) \<le> of_int L - 1 / 2" by simp
qed

lemma index_in_row:
  assumes "0 \<le> r" "r \<le> of_int L - 1 / 2" "L < 2 ^ 31"
  shows "c_int r = Inr \<lfloor>r\<rfloor>" and "0 \<le> \<lfloor>r\<rfloor>" and "\<lfloor>r\<rfloor> < L"
proof -
  from assms(3) have "of_int L < (2 :: real) ^ 31"
    by (metis of_int_less_iff of_int_numeral of_int_power)
  with assms(2) have "r < 2 ^ 31" by linarith
  with assms(1) show "c_int r = Inr \<lfloor>r\<rfloor>" by (rule c_int_ok)
  from assms(1) show "0 \<le> \<lfloor>r\<rfloor>" by simp
  from assms(2) have "r < of_int L" by linarith
  then show "\<lfloor>r\<rfloor> < L" by (simp only: floor_less_iff)
qed

text \<open>A loop that adds one value per iteration.\<close>

lemma accumulate_loop:
  fixes z :: "'a::plus"
  assumes "\<And>k d. 0 \<le> k \<Longrightarrow> k < h \<Longrightarrow> body k d = Inr (d + v k)"
  shows "for_loop [0..h - 1] body z = Inr (foldl (+) z (map (\<lambda>k. v (int k)) [0..<nat h]))"
proof -
  let ?P = "\<lambda>k d. d = foldl (+) z (map (\<lambda>k. v (int k)) [0..<nat k])"
  have "\<exists>s'. for_loop [0..h - 1] body z = Inr s' \<and> ?P (max 0 (h - 1 + 1)) s'"
  proof (rule for_loop_upto)
    show "?P 0 z" by simp
  next
    fix k d
    assume k: "0 \<le> k" "k \<le> h - 1" and P: "?P k d"
    from k have n: "nat (k + 1) = Suc (nat k)" by simp
    from k assms [of k d] have "body k d = Inr (d + v k)" by simp
    then show "\<exists>s'. body k d = Inr s' \<and> ?P (k + 1) s'"
      using P k by (simp add: n)
  qed
  then show ?thesis by (simp add: max_def)
qed

lemma foldl_plus_sum:
  fixes f :: "nat \<Rightarrow> 'a::comm_monoid_add"
  shows "foldl (+) 0 (map f [0..<n]) = (\<Sum>k = 0..<n. f k)"
  by (induction n) (simp_all add: add.commute)

lemma unat_sum_word:
  fixes f :: "nat \<Rightarrow> 'a::len word"
  shows "unat (\<Sum>k = 0..<n. f k) = (\<Sum>k = 0..<n. unat (f k)) mod 2 ^ LENGTH('a)"
proof (induction n)
  case 0
  then show ?case by simp
next
  case (Suc n)
  have "unat (\<Sum>k = 0..<Suc n. f k) = (unat (\<Sum>k = 0..<n. f k) + unat (f n)) mod 2 ^ LENGTH('a)"
    by (simp add: unat_word_ariths)
  also have "\<dots> = ((\<Sum>k = 0..<n. unat (f k)) mod 2 ^ LENGTH('a) + unat (f n)) mod 2 ^ LENGTH('a)"
    by (simp only: Suc.IH)
  also have "\<dots> = (\<Sum>k = 0..<Suc n. unat (f k)) mod 2 ^ LENGTH('a)"
    by (simp add: mod_add_left_eq)
  finally show ?case .
qed

lemma stack_row:
  fixes inp outp b :: "'a::{zero, plus} list list"
  assumes rect: "\<forall>r\<in>set inp. int (length r) = L" and S: "1 \<le> S" and L: "L < 2 ^ 31"
    and cols: "\<forall>i<length inp. min L \<lfloor>S\<rfloor> \<le> int (length (outp ! i))"
    and rows: "length inp \<le> length outp"
    and i: "0 \<le> i" "i < int (length inp)"
    and sh: "map length b = map length outp"
  shows "\<exists>b'. for_loop [0..min L \<lfloor>S\<rfloor> - 1]
             (\<lambda>j outp.
                case for_loop [0..\<lfloor>rnd (of_int L / S)\<rfloor> - 1]
                       (\<lambda>k datum.
                          case c_int (rnd (of_int j + rnd (of_int k * S))) of
                            Inl e \<Rightarrow> Inl e
                          | Inr n \<Rightarrow>
                              case get2 inp i n of
                                Inl e \<Rightarrow> Inl e
                              | Inr v \<Rightarrow> Inr (datum + v))
                       0 of
                  Inl e \<Rightarrow> Inl e
                | Inr datum \<Rightarrow> set2 outp i j datum) b = Inr b' \<and>
          map length b' = map length b \<and>
          (\<forall>i' c. b' ! i' ! c =
             (if i' = nat i
              then (if int c < min L \<lfloor>S\<rfloor> then stack_datum (inp ! nat i) S c else b ! i' ! c)
              else b ! i' ! c))"
proof -
  let ?w = "min L \<lfloor>S\<rfloor>"
  let ?h = "\<lfloor>rnd (of_int L / S)\<rfloor>"
  let ?kbody = "\<lambda>j k (datum :: 'a).
                  case c_int (rnd (of_int j + rnd (of_int k * S))) of
                    Inl e \<Rightarrow> Inl e
                  | Inr n \<Rightarrow>
                      case get2 inp i n of
                        Inl e \<Rightarrow> Inl e
                      | Inr v \<Rightarrow> Inr (datum + v)"
  let ?body = "\<lambda>j outp.
                case for_loop [0..?h - 1] (?kbody j) 0 of
                  Inl e \<Rightarrow> Inl e
                | Inr datum \<Rightarrow> set2 outp i j datum"
  let ?F = "\<lambda>j c. if int c < j then Some (stack_datum (inp ! nat i) S c) else None"
  from i have ni: "nat i < length inp" by simp
  then have Li: "int (length (inp ! nat i)) = L"
    using rect by simp
  then have L0: "0 \<le> L" by linarith
  from ni rows have nb: "i < int (length b)" "nat i < length outp"
    using shape_length [OF sh] by simp_all
  have lb: "length (b ! nat i) = length (outp ! nat i)"
    using shape_row [OF sh nb(2)] .
  have h: "to_int (rnd (real (length (inp ! nat i)) / S)) = ?h"
  proof -
    have "real (length (inp ! nat i)) = of_int L" using Li by (metis of_int_of_nat_eq)
    with quotient_bounds(1) [OF S L0 L] show ?thesis by (simp add: to_int_floor)
  qed
  have datum: "for_loop [0..?h - 1] (?kbody j) 0 = Inr (stack_datum (inp ! nat i) S (nat j))"
    if j: "0 \<le> j" "j < ?w" for j
  proof -
    from j have jS: "j < \<lfloor>S\<rfloor>" by simp
    let ?v = "\<lambda>k. inp ! nat i ! nat \<lfloor>rnd (of_int j + rnd (of_int k * S))\<rfloor>"
    have "for_loop [0..?h - 1] (?kbody j) 0 =
        Inr (foldl (+) 0 (map (\<lambda>k. ?v (int k)) [0..<nat ?h]))"
    proof (rule accumulate_loop)
      fix k and d :: 'a
      assume k: "0 \<le> k" "k < ?h"
      note b = strided_index(3,4) [OF S L0 L j(1) jS k]
      note c = index_in_row [OF b L]
      from c(2,3) i Li have "get2 inp i \<lfloor>rnd (of_int j + rnd (of_int k * S))\<rfloor> = Inr (?v k)"
        by (simp add: get2_ok)
      with c(1) show "?kbody j k d = Inr (d + ?v k)" by simp
    qed
    moreover have "map (\<lambda>k. ?v (int k)) [0..<nat ?h] =
        map (\<lambda>k. inp ! nat i ! nat (to_int (rnd (real (nat j) + rnd (real k * S))))) [0..<nat ?h]"
    proof (rule map_cong [OF refl])
      fix k
      assume "k \<in> set [0..<nat ?h]"
      then have k: "0 \<le> int k" "int k < ?h" by simp_all
      from strided_index(3) [OF S L0 L j(1) jS k]
      have "to_int (rnd (of_int j + rnd (of_int (int k) * S))) =
          \<lfloor>rnd (of_int j + rnd (of_int (int k) * S))\<rfloor>"
        by (rule to_int_floor)
      with j(1) show "?v (int k) =
          inp ! nat i ! nat (to_int (rnd (real (nat j) + rnd (real k * S))))"
        by simp
    qed
    ultimately show ?thesis
      by (simp only: stack_datum_def h)
  qed
  have ex: "\<exists>a'. for_loop [0..?w - 1] ?body b = Inr a' \<and> map length a' = map length b \<and>
           (\<forall>i' c. a' ! i' ! c =
              (if i' = nat i then (case ?F (max 0 ?w) c of Some v \<Rightarrow> v | None \<Rightarrow> b ! i' ! c)
               else b ! i' ! c))"
  proof (rule row_loop [where col = "\<lambda>j. j" and V = "\<lambda>j. stack_datum (inp ! nat i) S (nat j)"])
    show "0 \<le> i" by fact
    show "i < int (length b)" by fact
    show "?F 0 c = None" for c by simp
    show "?F (j + 1) c =
        (if c = nat j then Some (stack_datum (inp ! nat i) S (nat j)) else ?F j c)"
      if "0 \<le> j" "j < ?w" for j c
      using that by auto
    show "0 \<le> j \<and> j < int (length (b ! nat i))" if "0 \<le> j" "j < ?w" for j
      using that cols ni lb by auto
    show "?body j b' = set2 b' i j (stack_datum (inp ! nat i) S (nat j))"
      if "0 \<le> j" "j < ?w" for j b'
      using datum [OF that] by simp
  qed
  have eq: "(case ?F (max 0 ?w) c of Some v \<Rightarrow> v | None \<Rightarrow> x) =
      (if int c < ?w then stack_datum (inp ! nat i) S c else x)" for c x
  proof -
    have "(int c < max 0 ?w) = (int c < ?w)" by auto
    then show ?thesis by simp
  qed
  from ex show ?thesis unfolding eq .
qed

lemma stack_result:
  fixes inp outp :: "'a::{zero, plus} list list"
  assumes rect: "\<forall>r\<in>set inp. int (length r) = L" and S: "1 \<le> S" "S < 2 ^ 31"
    and L: "L < 2 ^ 31"
    and rows: "length inp \<le> length outp"
    and cols: "\<forall>i<length inp. min L \<lfloor>S\<rfloor> \<le> int (length (outp ! i))"
  shows "\<exists>outp'. stack inp outp S = Inr outp' \<and> map length outp' = map length outp \<and>
      (\<forall>i c. outp' ! i ! c =
         (if i < length inp \<and> int c < min L \<lfloor>S\<rfloor> then stack_datum (inp ! i) S c
          else outp ! i ! c))"
proof (cases "inp = []")
  case True
  from S have "c_int S = Inr \<lfloor>S\<rfloor>" by (simp add: c_int_ok)
  moreover have "c_int (rnd (of_int (shape1 inp) / S)) = Inr 0"
    using True by (simp add: shape1_def rnd_def round_to_def c_int_def to_int_def)
  ultimately show ?thesis
    using True S by (simp add: stack_def Let_def)
next
  case False
  then have sL: "shape1 inp = L"
    using rect by (cases inp) (simp_all add: shape1_def)
  then have L0: "0 \<le> L"
    by (cases inp) (auto simp: shape1_def)
  from S have tS: "c_int S = Inr \<lfloor>S\<rfloor>" by (simp add: c_int_ok)
  from quotient_bounds(1,2) [OF S(1) L0 L]
  have tL: "c_int (rnd (of_int L / S)) = Inr \<lfloor>rnd (of_int L / S)\<rfloor>"
    by (rule c_int_ok)
  let ?w = "min L \<lfloor>S\<rfloor>"
  let ?R = "\<lambda>(i :: int) c old. if int c < ?w then stack_datum (inp ! nat i) S c else old"
  let ?rowbody = "\<lambda>i. for_loop [0..?w - 1]
              (\<lambda>j outp.
                 case for_loop [0..\<lfloor>rnd (of_int L / S)\<rfloor> - 1]
                        (\<lambda>k datum.
                           case c_int (rnd (of_int j + rnd (of_int k * S))) of
                             Inl e \<Rightarrow> Inl e
                           | Inr n \<Rightarrow>
                               case get2 inp i n of
                                 Inl e \<Rightarrow> Inl e
                               | Inr v \<Rightarrow> Inr (datum + v))
                        (0 :: 'a) of
                   Inl e \<Rightarrow> Inl e
                 | Inr datum \<Rightarrow> set2 outp i j datum)"
  have "\<exists>a'. for_loop [0..int (length inp) - 1] ?rowbody outp = Inr a' \<and>
         map length a' = map length outp \<and>
         (\<forall>i' c. a' ! i' ! c =
            (if int i' < int (length inp) then ?R (int i') c (outp ! i' ! c)
             else outp ! i' ! c))"
  proof (rule rows_loop [where R = ?R])
    fix i and b :: "'a list list"
    assume "0 \<le> i" "i < int (length inp)" "map length b = map length outp"
    then show "\<exists>b'. ?rowbody i b = Inr b' \<and>
          map length b' = map length b \<and>
          (\<forall>i' c. b' ! i' ! c =
             (if i' = nat i then ?R i c (b ! i' ! c) else b ! i' ! c))"
      by (rule stack_row [OF rect S(1) L cols rows])
  qed
  then obtain a' where a': "for_loop [0..int (length inp) - 1] ?rowbody outp = Inr a'"
      "map length a' = map length outp"
      "\<And>i' c. a' ! i' ! c =
            (if int i' < int (length inp) then ?R (int i') c (outp ! i' ! c)
             else outp ! i' ! c)"
    by blast
  from S have "S \<noteq> 0" by simp
  then have "stack inp outp S = Inr a'"
    unfolding stack_def Let_def sL using a'(1) by (simp add: tS tL)
  moreover have "a' ! i ! c =
         (if i < length inp \<and> int c < ?w then stack_datum (inp ! i) S c else outp ! i ! c)" for i c
    using a'(3) [of i c] by simp
  ultimately show ?thesis
    using a'(2) by blast
qed

lemma double_11_10: "rnd (11 / 10) = 2476979795053773 / 2251799813685248"
  by (simp add: rnd_def round_to_def expo_def compute_bitlen round_even_def)

lemma double_4_3: "rnd (4 / 3) = 6004799503160661 / 4503599627370496"
  by (simp add: rnd_def round_to_def expo_def compute_bitlen round_even_def)

text \<open>
  C7, as stated, fails in two ways. The double nearest to 1.1 lies above 11/10, so
  \<open>floor(11 / S) = 9\<close>; but the quotient of the doubles 11 and \<open>S\<close> rounds to 10, and
  \<open>stack\<close> sums the ten samples at \<open>0 .. 9\<close>, 55, where the sum of the specification has the nine
  terms at \<open>0 .. 8\<close>, 45. The double nearest to 4/3 lies below 4/3, so \<open>floor(3 * S) = 3\<close>;
  but the product of the doubles 3 and \<open>S\<close> rounds to 4, and \<open>stack\<close> sums the samples at
  0, 1, 2 and 4, where the sum of the specification has those at 0, 1, 2 and 3.
\<close>

theorem stack_sums_counterexample:
  "stack [[1, 2, 3, 4, 5, 6, 7, 8, 9, 10, 11]] [[0]] (rnd (11 / 10)) = Inr [[55 :: 8 word]] \<and>
   strided_sum [[1, 2, 3, 4, 5, 6, 7, 8, 9, 10, 11 :: 8 word]] (rnd (11 / 10)) 0 0 = 45 \<and>
   stack [[0, 1, 2, 3, 4, 5]] [[0]] (rnd (4 / 3)) = Inr [[7 :: 8 word]] \<and>
   strided_sum [[0, 1, 2, 3, 4, 5 :: 8 word]] (rnd (4 / 3)) 0 0 = 6"
proof -
  have s: "stack [[1, 2, 3, 4, 5, 6, 7, 8, 9, 10, 11]] [[0]] (rnd (11 / 10)) =
      Inr [[55 :: 8 word]]"
    unfolding double_11_10
    by (simp add: stack_def shape1_def c_int_def to_int_def upto.simps get2_def get_def
        set2_def rnd_def round_to_def expo_def compute_bitlen round_even_def)
  have n: "nat \<lfloor>real (length ([[1, 2, 3, 4, 5, 6, 7, 8, 9, 10, 11 :: 8 word]] ! 0)) /
      (2476979795053773 / 2251799813685248)\<rfloor> = 9"
    by simp
  have u: "[0..<9] = [0, 1, 2, 3, 4, 5, 6, 7, 8 :: nat]"
    by code_simp
  have a: "strided_sum [[1, 2, 3, 4, 5, 6, 7, 8, 9, 10, 11 :: 8 word]] (rnd (11 / 10)) 0 0 = 45"
    unfolding strided_sum_def double_11_10 n foldl_plus_sum [symmetric] u
    by simp
  have t: "stack [[0, 1, 2, 3, 4, 5]] [[0]] (rnd (4 / 3)) = Inr [[7 :: 8 word]]"
    unfolding double_4_3
    by (simp add: stack_def shape1_def c_int_def to_int_def upto.simps get2_def get_def
        set2_def rnd_def round_to_def expo_def compute_bitlen round_even_def)
  have n': "nat \<lfloor>real (length ([[0, 1, 2, 3, 4, 5 :: 8 word]] ! 0)) /
      (6004799503160661 / 4503599627370496)\<rfloor> = 4"
    by simp
  have u': "[0..<4] = [0, 1, 2, 3 :: nat]"
    by code_simp
  have b: "strided_sum [[0, 1, 2, 3, 4, 5 :: 8 word]] (rnd (4 / 3)) 0 0 = 6"
    unfolding strided_sum_def double_4_3 n' foldl_plus_sum [symmetric] u'
    by simp
  from s a t b show ?thesis by simp
qed

text \<open>
  C7, amended. On an input of shape \<open>[rows, L]\<close>, with \<open>1 \<le> S\<close> and a destination that
  holds the columns written, \<open>stack\<close> returns, and the value of every row \<open>i\<close> and column
  \<open>j < min(L, floor S)\<close> is \<open>stack_datum\<close>: the samples \<open>input[i][<int>(j + k*S)]\<close> for
  \<open>k = 0 .. <int>(L/S) - 1\<close>, where the quotient, the product and the sum are those of
  doubles, added from the left in the element type. For an integer element type of
  \<open>w\<close> bits this is the sum of the samples in the type, and as an unsigned number the
  sum of the samples modulo \<open>2 ^ w\<close>.
\<close>

theorem stack_sums:
  fixes inp outp :: "'a::{zero, plus} list list" and row :: "'b::len word list"
  assumes "\<forall>r\<in>set inp. int (length r) = L" and "L < 2 ^ 31"
    and "1 \<le> S" and "S < 2 ^ 31"
    and "length inp \<le> length outp"
    and "\<forall>i<length inp. min L \<lfloor>S\<rfloor> \<le> int (length (outp ! i))"
  shows "(\<exists>outp'. stack inp outp S = Inr outp' \<and>
            (\<forall>i<length inp. \<forall>j<nat (min L \<lfloor>S\<rfloor>).
               outp' ! i ! j = stack_datum (inp ! i) S j)) \<and>
         stack_datum row S j =
           (\<Sum>k = 0..<nat (to_int (rnd (real (length row) / S))).
              row ! nat (to_int (rnd (real j + rnd (real k * S))))) \<and>
         unat (stack_datum row S j) =
           (\<Sum>k = 0..<nat (to_int (rnd (real (length row) / S))).
              unat (row ! nat (to_int (rnd (real j + rnd (real k * S)))))) mod 2 ^ LENGTH('b)"
proof -
  from stack_result [OF assms(1,3,4,2,5,6)] obtain outp' where o: "stack inp outp S = Inr outp'"
    "\<And>i c. outp' ! i ! c =
         (if i < length inp \<and> int c < min L \<lfloor>S\<rfloor> then stack_datum (inp ! i) S c
          else outp ! i ! c)"
    by blast
  have "outp' ! i ! j = stack_datum (inp ! i) S j"
    if "i < length inp" "j < nat (min L \<lfloor>S\<rfloor>)" for i j
  proof -
    from that(2) have "int j < min L \<lfloor>S\<rfloor>" by linarith
    with that(1) o(2) [of i j] show ?thesis
      by (simp only: simp_thms if_True)
  qed
  with o(1) have 1: "\<exists>outp'. stack inp outp S = Inr outp' \<and>
            (\<forall>i<length inp. \<forall>j<nat (min L \<lfloor>S\<rfloor>).
               outp' ! i ! j = stack_datum (inp ! i) S j)"
    by blast
  have 2: "stack_datum row S j =
           (\<Sum>k = 0..<nat (to_int (rnd (real (length row) / S))).
              row ! nat (to_int (rnd (real j + rnd (real k * S)))))"
    by (simp only: stack_datum_def foldl_plus_sum)
  from 1 2 show ?thesis
    by (simp only: unat_sum_word simp_thms)
qed

theorem stack_sums_witness:
  "stack [[250, 1, 10, 3, 7]] [[9, 9, 9]] (5 / 2) = Inr [[4, 4, 9 :: 8 word]] \<and>
   stack_datum [250, 1, 10, 3, 7 :: 8 word] (5 / 2) 0 = 4 \<and>
   unat (4 :: 8 word) = (250 + 10) mod 2 ^ 8 \<and>
   stack [[Float64 (1 / 2), Float64 (1 / 4), Float64 (1 / 8), Float64 3]]
     [[Float64 9, Float64 9, Float64 9]] 2 =
     Inr [[Float64 (5 / 8), Float64 (13 / 4), Float64 9]]"
proof -
  have e: "stack [[250, 1, 10, 3, 7]] [[9, 9, 9]] (5 / 2) = Inr [[4, 4, 9 :: 8 word]]"
    by (simp add: stack_def shape1_def c_int_def to_int_def upto.simps get2_def get_def
        set2_def rnd_def round_to_def expo_def compute_bitlen round_even_def)
  have f: "stack [[Float64 (1 / 2), Float64 (1 / 4), Float64 (1 / 8), Float64 3]]
     [[Float64 9, Float64 9, Float64 9]] 2 =
     Inr [[Float64 (5 / 8), Float64 (13 / 4), Float64 9]]"
    by (simp add: stack_def shape1_def c_int_def to_int_def upto.simps get2_def get_def
        set2_def rnd_def round_to_def expo_def compute_bitlen round_even_def
        zero_float64_def plus_float64_def)
  have n: "nat (to_int (rnd (real (length [250, 1, 10, 3, 7 :: 8 word]) / (5 / 2)))) = 2"
    by (simp add: to_int_def rnd_def round_to_def expo_def compute_bitlen round_even_def)
  have u: "[0..<2] = [0, 1 :: nat]"
    by code_simp
  have d: "stack_datum [250, 1, 10, 3, 7 :: 8 word] (5 / 2) 0 = 4"
    unfolding stack_datum_def n u
    by simp (simp add: to_int_def rnd_def round_to_def expo_def compute_bitlen round_even_def)
  have "\<forall>r\<in>set [[250, 1, 10, 3, 7 :: 8 word]]. int (length r) = 5"
    and "(5 :: int) < 2 ^ 31"
    and "(1 :: real) \<le> 5 / 2" and "(5 / 2 :: real) < 2 ^ 31"
    and "length [[250, 1, 10, 3, 7 :: 8 word]] \<le> length [[9, 9, 9 :: 8 word]]"
    and "\<forall>i<length [[250, 1, 10, 3, 7 :: 8 word]].
           min 5 \<lfloor>5 / 2 :: real\<rfloor> \<le> int (length ([[9, 9, 9 :: 8 word]] ! i))"
    by simp_all
  from stack_sums [OF this, of "[250, 1, 10, 3, 7 :: 8 word]" 0] obtain outp' where
    "stack [[250, 1, 10, 3, 7]] [[9, 9, 9 :: 8 word]] (5 / 2) = Inr outp'"
    by blast
  with e f d show ?thesis
    by simp
qed

text \<open>
  C1, as stated, fails. With \<open>L = 2\<close> and \<open>S = 2\<close>, \<open>floor(L/S) = 1\<close> and \<open>stack\<close> overwrites
  two columns; with \<open>L = 4\<close> and \<open>S = 1\<close>, \<open>floor(L/S) = 4\<close> and \<open>stack\<close> writes one column
  (the sum of the four samples) and leaves the other three as they were.
\<close>

theorem stack_width_counterexample:
  "stack [[5, 7]] [[9, 9]] 2 = Inr [[5, 7 :: 8 word]] \<and> \<lfloor>2 / 2 :: real\<rfloor> = 1 \<and>
   stack [[1, 2, 3, 4]] [[9, 9, 9, 9]] 1 = Inr [[10, 9, 9, 9 :: 8 word]] \<and>
   \<lfloor>4 / 1 :: real\<rfloor> = 4"
  by (simp add: stack_def shape1_def c_int_def to_int_def upto.simps get2_def get_def set2_def
      rnd_def round_to_def expo_def compute_bitlen round_even_def)

text \<open>
  C1, amended. On an input of shape \<open>[rows, L]\<close>, with \<open>1 \<le> S\<close> and a destination of at
  least \<open>rows\<close> rows of at least \<open>min(L, floor S)\<close> columns, \<open>stack\<close> returns a destination
  of the same shape in which the columns \<open>0 .. min(L, floor S) - 1\<close> of the rows
  \<open>0 .. rows - 1\<close> hold the accumulated values and every other cell is unchanged: the
  output width is \<open>min(L, floor S)\<close>. The quotient \<open><int>(L/S)\<close> of the doubles is the
  number of samples added into each column.
\<close>

theorem stack_width:
  fixes inp outp :: "'a::{zero, plus} list list"
  assumes "\<forall>r\<in>set inp. int (length r) = L" and "L < 2 ^ 31"
    and "1 \<le> S" and "S < 2 ^ 31"
    and "length inp \<le> length outp"
    and "\<forall>i<length inp. min L \<lfloor>S\<rfloor> \<le> int (length (outp ! i))"
  shows "\<exists>outp'. stack inp outp S = Inr outp' \<and> map length outp' = map length outp \<and>
      (\<forall>i<length outp. \<forall>j<length (outp ! i).
         outp' ! i ! j =
           (if i < length inp \<and> int j < min L \<lfloor>S\<rfloor> then stack_datum (inp ! i) S j
            else outp ! i ! j))"
  using stack_result [OF assms(1,3,4,2,5,6)] by blast

theorem stack_width_witness:
  "stack [[1, 2, 3, 4], [5, 6, 7, 8]] [[9, 9, 9], [9, 9, 9], [9, 9, 9]] 2 =
     Inr [[4, 6, 9], [12, 14, 9], [9, 9, 9 :: 8 word]] \<and>
   min 4 \<lfloor>2 :: real\<rfloor> = (2 :: int) \<and>
   stack_datum [1, 2, 3, 4 :: 8 word] 2 1 = 6"
proof -
  have e: "stack [[1, 2, 3, 4], [5, 6, 7, 8]] [[9, 9, 9], [9, 9, 9], [9, 9, 9]] 2 =
      Inr [[4, 6, 9], [12, 14, 9], [9, 9, 9 :: 8 word]]"
    by (simp add: stack_def shape1_def c_int_def to_int_def upto.simps get2_def get_def
        set2_def rnd_def round_to_def expo_def compute_bitlen round_even_def)
  have n: "nat (to_int (rnd (real (length [1, 2, 3, 4 :: 8 word]) / 2))) = 2"
    by (simp add: to_int_def rnd_def round_to_def expo_def compute_bitlen round_even_def)
  have u: "[0..<2] = [0, 1 :: nat]"
    by code_simp
  have d: "stack_datum [1, 2, 3, 4 :: 8 word] 2 1 = 6"
    unfolding stack_datum_def n u
    by simp (simp add: to_int_def rnd_def round_to_def expo_def compute_bitlen round_even_def)
  have "\<forall>r\<in>set [[1, 2, 3, 4], [5, 6, 7, 8 :: 8 word]]. int (length r) = 4"
    and "(4 :: int) < 2 ^ 31"
    and "(1 :: real) \<le> 2" and "(2 :: real) < 2 ^ 31"
    and "length [[1, 2, 3, 4], [5, 6, 7, 8 :: 8 word]] \<le>
           length [[9, 9, 9], [9, 9, 9], [9, 9, 9 :: 8 word]]"
    and "\<forall>i<length [[1, 2, 3, 4], [5, 6, 7, 8 :: 8 word]].
           min 4 \<lfloor>2 :: real\<rfloor> \<le> int (length ([[9, 9, 9], [9, 9, 9], [9, 9, 9 :: 8 word]] ! i))"
    by (simp_all add: less_Suc_eq)
  from stack_width [OF this] obtain outp' where
    "stack [[1, 2, 3, 4], [5, 6, 7, 8]] [[9, 9, 9], [9, 9, 9], [9, 9, 9 :: 8 word]] 2 =
       Inr outp'"
    by blast
  with e d show ?thesis
    by simp
qed

section \<open>Binning by slice\<close>

lemma cdiv_nonneg: "0 \<le> a \<Longrightarrow> 0 < b \<Longrightarrow> cdiv a b = a div b"
  by (simp add: cdiv_def sgn_if)

lemma bin_step:
  fixes b j :: int and c :: nat
  assumes b: "1 \<le> b" and j: "0 \<le> j"
  shows "(if int c * b < j + 1 then Some (V (min ((int c + 1) * b) (j + 1) - 1)) else None) =
         (if c = nat (j div b) then Some (V j)
          else if int c * b < j then Some (V (min ((int c + 1) * b) j - 1)) else None)"
proof -
  define q where "q = j div b"
  define r where "r = j mod b"
  have jq: "j = q * b + r" and r: "0 \<le> r" "r < b"
    using b by (simp_all add: q_def r_def)
  have q0: "0 \<le> q"
    using b j by (simp add: q_def pos_imp_zdiv_nonneg_iff)
  consider "int c < q" | "int c = q" | "q < int c" by linarith
  then show ?thesis
  proof cases
    case 1
    then have "(int c + 1) * b \<le> q * b"
      using b by (intro mult_right_mono) simp_all
    with jq r have le: "(int c + 1) * b \<le> j" by linarith
    have "(int c + 1) * b = int c * b + b" by (simp add: algebra_simps)
    with le b have lt: "int c * b < j" and lt1: "int c * b < j + 1" by linarith+
    from 1 q0 have ne: "c \<noteq> nat (j div b)" by (simp add: q_def)
    from le have m: "min ((int c + 1) * b) (j + 1) = (int c + 1) * b"
      "min ((int c + 1) * b) j = (int c + 1) * b" by simp_all
    show ?thesis
      unfolding if_P [OF lt1] if_P [OF lt] if_not_P [OF ne] m by (rule refl)
  next
    case 2
    then have cq: "c = nat (j div b)" by (simp add: q_def)
    have "(int c + 1) * b = int c * b + b" by (simp add: algebra_simps)
    with 2 jq r have "int c * b \<le> j" "j < (int c + 1) * b" by simp_all
    then have lt1: "int c * b < j + 1"
      and m: "min ((int c + 1) * b) (j + 1) - 1 = j" by simp_all
    show ?thesis
      unfolding if_P [OF lt1] if_P [OF cq] m by (rule refl)
  next
    case 3
    then have "(q + 1) * b \<le> int c * b"
      using b by (intro mult_right_mono) simp_all
    moreover have "(q + 1) * b = q * b + b" by (simp add: algebra_simps)
    ultimately have "j < int c * b" using jq r by linarith
    then have n1: "\<not> int c * b < j + 1" and n2: "\<not> int c * b < j" by simp_all
    from 3 q0 have ne: "c \<noteq> nat (j div b)" by (simp add: q_def)
    show ?thesis
      unfolding if_not_P [OF n1] if_not_P [OF n2] if_not_P [OF ne] by (rule refl)
  qed
qed

text \<open>The sample that \<open>separate\<close> reads for row \<open>i\<close> and offset \<open>j\<close>.\<close>

lemma separate_index:
  assumes D: "1 \<le> D" and L: "0 \<le> L" "L < 2 ^ 31"
    and j: "0 \<le> j" "j < \<lfloor>D\<rfloor>" and i: "0 \<le> i" "i < \<lfloor>rnd (of_int L / D)\<rfloor>"
  shows "c_int (rnd (rnd (of_int i * D) + of_int j)) =
           Inr \<lfloor>rnd (rnd (of_int i * D) + of_int j)\<rfloor>"
    and "0 \<le> \<lfloor>rnd (rnd (of_int i * D) + of_int j)\<rfloor>"
    and "\<lfloor>rnd (rnd (of_int i * D) + of_int j)\<rfloor> < L"
proof -
  have c: "rnd (of_int i * D) + of_int j = of_int j + rnd (of_int i * D)" by simp
  note b = strided_index(3,4) [OF D L j i]
  note r = index_in_row [OF b L(2)]
  from r(1) show "c_int (rnd (rnd (of_int i * D) + of_int j)) =
           Inr \<lfloor>rnd (rnd (of_int i * D) + of_int j)\<rfloor>"
    unfolding c .
  from r(2) show "0 \<le> \<lfloor>rnd (rnd (of_int i * D) + of_int j)\<rfloor>"
    unfolding c .
  from r(3) show "\<lfloor>rnd (rnd (of_int i * D) + of_int j)\<rfloor> < L"
    unfolding c .
qed

lemma separate_row:
  fixes inp :: "'a list" and outp b :: "'a list list"
  assumes D: "1 \<le> D" and bin: "1 \<le> binning" and L31: "L < 2 ^ 31"
    and cols: "\<forall>i<nat \<lfloor>rnd (of_int L / D)\<rfloor>. min L \<lfloor>D\<rfloor> \<le> int (length (outp ! i))"
    and rows: "nat \<lfloor>rnd (of_int L / D)\<rfloor> \<le> length outp"
    and L: "L = int (length inp)"
    and i: "0 \<le> i" "i < \<lfloor>rnd (of_int L / D)\<rfloor>"
    and sh: "map length b = map length outp"
  shows "\<exists>b'. for_loop [0..min L \<lfloor>D\<rfloor> - 1]
             (\<lambda>j outp.
                if binning = 0 then Inl DivisionByZero
                else case c_int (rnd (rnd (of_int i * D) + of_int j)) of
                       Inl e \<Rightarrow> Inl e
                     | Inr k \<Rightarrow>
                         case get inp k of
                           Inl e \<Rightarrow> Inl e
                         | Inr v \<Rightarrow> set2 outp i (cdiv (j - 0) binning) v) b = Inr b' \<and>
          map length b' = map length b \<and>
          (\<forall>i' c. b' ! i' ! c =
             (if i' = nat i
              then (if int c * binning < min L \<lfloor>D\<rfloor>
                    then inp ! nat \<lfloor>rnd (rnd (of_int i * D) +
                           of_int (min ((int c + 1) * binning) (min L \<lfloor>D\<rfloor>) - 1))\<rfloor>
                    else b ! i' ! c)
              else b ! i' ! c))"
proof -
  let ?w = "min L \<lfloor>D\<rfloor>"
  let ?V = "\<lambda>j. inp ! nat \<lfloor>rnd (rnd (of_int i * D) + of_int j)\<rfloor>"
  let ?body = "\<lambda>j outp.
                if binning = 0 then Inl DivisionByZero
                else case c_int (rnd (rnd (of_int i * D) + of_int j)) of
                       Inl e \<Rightarrow> Inl e
                     | Inr k \<Rightarrow>
                         case get inp k of
                           Inl e \<Rightarrow> Inl e
                         | Inr v \<Rightarrow> set2 outp i (cdiv (j - 0) binning) v"
  let ?F = "\<lambda>j c. if int c * binning < j
                  then Some (?V (min ((int c + 1) * binning) j - 1)) else None"
  from L have L0: "0 \<le> L" by simp
  from i have ni: "nat i < nat \<lfloor>rnd (of_int L / D)\<rfloor>" by arith
  with rows have no: "nat i < length outp" by linarith
  with i have nb: "i < int (length b)" "nat i < length outp"
    using shape_length [OF sh] by simp_all
  have lb: "length (b ! nat i) = length (outp ! nat i)"
    using shape_row [OF sh nb(2)] .
  have rd: "?body j b' = set2 b' i (j div binning) (?V j)"
    if j: "0 \<le> j" "j < ?w" for j b'
  proof -
    from j have jD: "j < \<lfloor>D\<rfloor>" by simp
    note s = separate_index [OF D L0 L31 j(1) jD i]
    from s(2,3) have "get inp \<lfloor>rnd (rnd (of_int i * D) + of_int j)\<rfloor> = Inr (?V j)"
      by (simp add: get_def L)
    with s(1) bin cdiv_nonneg [of j binning] j(1) show ?thesis by simp
  qed
  have ex: "\<exists>a'. for_loop [0..?w - 1] ?body b = Inr a' \<and> map length a' = map length b \<and>
           (\<forall>i' c. a' ! i' ! c =
              (if i' = nat i then (case ?F (max 0 ?w) c of Some v \<Rightarrow> v | None \<Rightarrow> b ! i' ! c)
               else b ! i' ! c))"
  proof (rule row_loop [where col = "\<lambda>j. j div binning" and V = ?V])
    show "0 \<le> i" by fact
    show "i < int (length b)" by fact
    show "?F 0 c = None" for c
      using bin by (simp add: not_less)
    show "?F (j + 1) c = (if c = nat (j div binning) then Some (?V j) else ?F j c)"
      if "0 \<le> j" "j < ?w" for j c
      using bin_step [OF bin that(1), of c ?V] .
    show "0 \<le> j div binning \<and> j div binning < int (length (b ! nat i))"
      if "0 \<le> j" "j < ?w" for j
    proof -
      from that bin have "0 \<le> j div binning" "j div binning \<le> j"
        using zdiv_mono2 [of j 1 binning] by (simp_all add: pos_imp_zdiv_nonneg_iff)
      moreover from cols ni have "?w \<le> int (length (outp ! nat i))" by simp
      ultimately show ?thesis using that unfolding lb by linarith
    qed
    show "?body j b' = set2 b' i (j div binning) (?V j)"
      if "0 \<le> j" "j < ?w" for j b'
      using rd [OF that] .
  qed
  have eq: "(case ?F (max 0 ?w) c of Some v \<Rightarrow> v | None \<Rightarrow> x) =
      (if int c * binning < ?w
       then inp ! nat \<lfloor>rnd (rnd (of_int i * D) +
              of_int (min ((int c + 1) * binning) ?w - 1))\<rfloor>
       else x)" for c x
  proof -
    from D have "0 \<le> \<lfloor>D\<rfloor>" by simp
    with L have "max 0 ?w = ?w" by simp
    then show ?thesis by simp
  qed
  from ex show ?thesis unfolding eq .
qed

lemma separate_result:
  fixes inp :: "'a list" and outp :: "'a list list"
  assumes D: "1 \<le> D" "D < 2 ^ 31" and bin: "1 \<le> binning"
    and L: "L = int (length inp)" and L31: "L < 2 ^ 31"
    and rows: "nat \<lfloor>rnd (of_int L / D)\<rfloor> \<le> length outp"
    and cols: "\<forall>i<nat \<lfloor>rnd (of_int L / D)\<rfloor>. min L \<lfloor>D\<rfloor> \<le> int (length (outp ! i))"
  shows "\<exists>outp'. separate inp outp D binning \<lparr>start = None, stop = None\<rparr> = Inr outp' \<and>
      map length outp' = map length outp \<and>
      (\<forall>i c. outp' ! i ! c =
         (if int i < \<lfloor>rnd (of_int L / D)\<rfloor> \<and> int c * binning < min L \<lfloor>D\<rfloor>
          then inp ! nat \<lfloor>rnd (rnd (of_int (int i) * D) +
                 of_int (min ((int c + 1) * binning) (min L \<lfloor>D\<rfloor>) - 1))\<rfloor>
          else outp ! i ! c))"
proof -
  from L have L0: "0 \<le> L" by simp
  from D have tD: "c_int D = Inr \<lfloor>D\<rfloor>"
    by (intro c_int_ok) simp_all
  have tL: "c_int (rnd (of_int L / D)) = Inr \<lfloor>rnd (of_int L / D)\<rfloor>"
    using quotient_bounds(1,2) [OF D(1) L0 L31] by (rule c_int_ok)
  let ?w = "min L \<lfloor>D\<rfloor>"
  let ?n = "\<lfloor>rnd (of_int L / D)\<rfloor>"
  let ?body = "\<lambda>i. for_loop [0..?w - 1]
              (\<lambda>j outp.
                 if binning = 0 then Inl DivisionByZero
                 else case c_int (rnd (rnd (of_int i * D) + of_int j)) of
                        Inl e \<Rightarrow> Inl e
                      | Inr k \<Rightarrow>
                          case get inp k of
                            Inl e \<Rightarrow> Inl e
                          | Inr v \<Rightarrow> set2 outp i (cdiv (j - 0) binning) v)"
  let ?R = "\<lambda>(i :: int) c old. if int c * binning < ?w
      then inp ! nat \<lfloor>rnd (rnd (of_int i * D) +
             of_int (min ((int c + 1) * binning) ?w - 1))\<rfloor>
      else old"
  have "\<exists>a'. for_loop [0..?n - 1] ?body outp = Inr a' \<and>
         map length a' = map length outp \<and>
         (\<forall>i' c. a' ! i' ! c =
            (if int i' < ?n then ?R (int i') c (outp ! i' ! c) else outp ! i' ! c))"
  proof (rule rows_loop [where R = ?R])
    fix i and b :: "'a list list"
    assume "0 \<le> i" "i < ?n" "map length b = map length outp"
    then show "\<exists>b'. ?body i b = Inr b' \<and>
          map length b' = map length b \<and>
          (\<forall>i' c. b' ! i' ! c =
             (if i' = nat i then ?R i c (b ! i' ! c) else b ! i' ! c))"
      by (rule separate_row [OF D(1) bin L31 cols rows L])
  qed
  then obtain a' where a': "for_loop [0..?n - 1] ?body outp = Inr a'"
      "map length a' = map length outp"
      "\<And>i' c. a' ! i' ! c =
            (if int i' < ?n then ?R (int i') c (outp ! i' ! c) else outp ! i' ! c)"
    by blast
  from D have "D \<noteq> 0" by simp
  with tD tL a'(1)
  have "separate inp outp D binning \<lparr>start = None, stop = None\<rparr> = Inr a'"
    unfolding L by (simp add: separate_def Let_def)
  moreover have "a' ! i ! c =
         (if int i < ?n \<and> int c * binning < ?w
          then inp ! nat \<lfloor>rnd (rnd (of_int (int i) * D) +
                 of_int (min ((int c + 1) * binning) ?w - 1))\<rfloor>
          else outp ! i ! c)" for i c
    using a'(3) [of i c] by simp
  ultimately show ?thesis
    using a'(2) by blast
qed

text \<open>
  C4, as stated, fails in three ways. With \<open>L = 2\<close>, \<open>D = 2\<close> and \<open>binning = 2\<close> the
  samples 0 and 1 are both stored in column 0 of row 0, which ends as \<open>input[1]\<close>, not
  as \<open>input[floor(0 * D)] = input[0]\<close>. With \<open>L = 11\<close> and \<open>D\<close> the double nearest to 1.1,
  \<open>floor(L/D) = 9\<close>, but the quotient of the doubles rounds to 10 and \<open>separate\<close> fills
  ten rows. With \<open>L = 6\<close> and \<open>D\<close> the double nearest to 4/3, \<open>floor(3 * D) = 3\<close>, but the
  product of the doubles rounds to 4 and row 3 holds \<open>input[4]\<close>.
\<close>

theorem separate_column0_counterexample:
  "separate [10, 20] [[0, 0]] 2 2 \<lparr>start = None, stop = None\<rparr> = Inr [[20, 0 :: int]] \<and>
   [10, 20 :: int] ! nat \<lfloor>0 * 2 :: real\<rfloor> = 10 \<and>
   separate [1, 2, 3, 4, 5, 6, 7, 8, 9, 10, 11]
     [[0], [0], [0], [0], [0], [0], [0], [0], [0], [0]] (rnd (11 / 10)) 1
     \<lparr>start = None, stop = None\<rparr> =
     Inr [[1], [2], [3], [4], [5], [6], [7], [8], [9], [10 :: int]] \<and>
   \<lfloor>11 / rnd (11 / 10)\<rfloor> = 9 \<and>
   separate [0, 1, 2, 3, 4, 5] [[9], [9], [9], [9]] (rnd (4 / 3)) 1
     \<lparr>start = None, stop = None\<rparr> = Inr [[0], [1], [2], [4 :: int]] \<and>
   [0, 1, 2, 3, 4, 5 :: int] ! nat \<lfloor>3 * rnd (4 / 3)\<rfloor> = 3"
proof -
  have a: "separate [10, 20] [[0, 0]] 2 2 \<lparr>start = None, stop = None\<rparr> =
      Inr [[20, 0 :: int]]"
    by (simp add: separate_def Let_def c_int_def to_int_def upto.simps get_def set2_def cdiv_def
        rnd_def round_to_def expo_def compute_bitlen round_even_def)
  have b: "separate [1, 2, 3, 4, 5, 6, 7, 8, 9, 10, 11]
     [[0], [0], [0], [0], [0], [0], [0], [0], [0], [0]] (rnd (11 / 10)) 1
     \<lparr>start = None, stop = None\<rparr> =
     Inr [[1], [2], [3], [4], [5], [6], [7], [8], [9], [10 :: int]]"
    unfolding double_11_10
    by (simp add: separate_def Let_def c_int_def to_int_def upto.simps get_def set2_def cdiv_def
        rnd_def round_to_def expo_def compute_bitlen round_even_def)
  have c: "separate [0, 1, 2, 3, 4, 5] [[9], [9], [9], [9]] (rnd (4 / 3)) 1
     \<lparr>start = None, stop = None\<rparr> = Inr [[0], [1], [2], [4 :: int]]"
    unfolding double_4_3
    by (simp add: separate_def Let_def c_int_def to_int_def upto.simps get_def set2_def cdiv_def
        rnd_def round_to_def expo_def compute_bitlen round_even_def)
  have d: "\<lfloor>11 / rnd (11 / 10)\<rfloor> = 9"
    unfolding double_11_10 by simp
  have e: "[0, 1, 2, 3, 4, 5 :: int] ! nat \<lfloor>3 * rnd (4 / 3)\<rfloor> = 3"
    unfolding double_4_3 by simp
  from a b c d e show ?thesis by simp
qed

text \<open>
  C4, amended. For an input of length \<open>L\<close>, \<open>1 \<le> D \<le> L\<close>, \<open>binning \<ge> 1\<close>, an open slice and
  a destination of at least \<open><int>(L/D)\<close> rows of at least \<open>min(L, floor D)\<close> columns,
  where the quotient is that of the doubles, \<open>separate\<close> returns a destination of the
  same shape. Column 0 of every row \<open>i < <int>(L/D)\<close> ends as
  \<open>input[<int>(i*D + (min(binning, min(L, floor D)) - 1))]\<close>, the last of the samples
  that fall into it, the product and the sum being those of doubles; this is
  \<open>input[<int>(i*D)]\<close> when \<open>binning = 1\<close>. Column \<open>c\<close> of
  such a row, when \<open>c * binning < min(L, floor D)\<close>, ends as
  \<open>input[<int>(i*D + (min((c+1) * binning, min(L, floor D)) - 1))]\<close>, and every other cell
  is unchanged: exactly the first \<open><int>(L/D)\<close> rows are filled.
\<close>

theorem separate_rows:
  fixes inp :: "'a list" and outp :: "'a list list"
  assumes "1 \<le> D" and "D \<le> real (length inp)" and "int (length inp) < 2 ^ 31"
    and "1 \<le> binning"
    and "nat \<lfloor>rnd (real (length inp) / D)\<rfloor> \<le> length outp"
    and "\<forall>i<nat \<lfloor>rnd (real (length inp) / D)\<rfloor>.
           min (int (length inp)) \<lfloor>D\<rfloor> \<le> int (length (outp ! i))"
  shows "\<exists>outp'. separate inp outp D binning \<lparr>start = None, stop = None\<rparr> = Inr outp' \<and>
      map length outp' = map length outp \<and>
      (\<forall>i<nat \<lfloor>rnd (real (length inp) / D)\<rfloor>.
         outp' ! i ! 0 =
           inp ! nat \<lfloor>rnd (rnd (real i * D) +
                  of_int (min binning (min (int (length inp)) \<lfloor>D\<rfloor>) - 1))\<rfloor>) \<and>
      (binning = 1 \<longrightarrow>
         (\<forall>i<nat \<lfloor>rnd (real (length inp) / D)\<rfloor>.
            outp' ! i ! 0 = inp ! nat \<lfloor>rnd (real i * D)\<rfloor>)) \<and>
      (\<forall>i<length outp. \<forall>c<length (outp ! i).
         outp' ! i ! c =
           (if i < nat \<lfloor>rnd (real (length inp) / D)\<rfloor> \<and>
               int c * binning < min (int (length inp)) \<lfloor>D\<rfloor>
            then inp ! nat \<lfloor>rnd (rnd (real i * D) +
                   of_int (min ((int c + 1) * binning) (min (int (length inp)) \<lfloor>D\<rfloor>) - 1))\<rfloor>
            else outp ! i ! c))"
proof -
  let ?L = "int (length inp)"
  have r: "real (length inp) = of_int ?L" by simp
  have D31: "D < 2 ^ 31"
  proof -
    from assms(3) have "of_int ?L < (2 :: real) ^ 31"
      by (metis of_int_less_iff of_int_numeral of_int_power)
    with assms(2) show ?thesis unfolding r by linarith
  qed
  from separate_result [where inp = inp and outp = outp and L = ?L,
      OF assms(1) D31 assms(4) refl assms(3)] assms(5,6)
  obtain outp' where o: "separate inp outp D binning \<lparr>start = None, stop = None\<rparr> = Inr outp'"
    "map length outp' = map length outp"
    "\<And>i c. outp' ! i ! c =
         (if int i < \<lfloor>rnd (of_int ?L / D)\<rfloor> \<and> int c * binning < min ?L \<lfloor>D\<rfloor>
          then inp ! nat \<lfloor>rnd (rnd (of_int (int i) * D) +
                 of_int (min ((int c + 1) * binning) (min ?L \<lfloor>D\<rfloor>) - 1))\<rfloor>
          else outp ! i ! c)"
    unfolding r by blast
  have lt: "(i < nat \<lfloor>rnd (real (length inp) / D)\<rfloor>) = (int i < \<lfloor>rnd (of_int ?L / D)\<rfloor>)" for i
    unfolding r by linarith
  have ri: "of_int (int i) = real i" for i by simp
  from assms(1,2) have "1 \<le> real (length inp)" by linarith
  then have "1 \<le> ?L" by linarith
  moreover from assms(1) have "1 \<le> \<lfloor>D\<rfloor>" by (simp add: le_floor_iff)
  ultimately have w: "1 \<le> min ?L \<lfloor>D\<rfloor>" by linarith
  have c0: "outp' ! i ! 0 =
      inp ! nat \<lfloor>rnd (rnd (real i * D) + of_int (min binning (min ?L \<lfloor>D\<rfloor>) - 1))\<rfloor>"
    if "i < nat \<lfloor>rnd (real (length inp) / D)\<rfloor>" for i
  proof -
    from that have a: "int i < \<lfloor>rnd (of_int ?L / D)\<rfloor>" by (simp only: lt)
    have z: "(int 0 + 1) * binning = binning" by simp
    have "int 0 * binning = 0" by simp
    with w have b: "int 0 * binning < min ?L \<lfloor>D\<rfloor>" by linarith
    from a b show ?thesis
      using o(3) [of i 0] by (simp only: simp_thms if_True z ri)
  qed
  have c1: "outp' ! i ! 0 = inp ! nat \<lfloor>rnd (real i * D)\<rfloor>"
    if "binning = 1" "i < nat \<lfloor>rnd (real (length inp) / D)\<rfloor>" for i
  proof -
    from w that(1) have "min binning (min ?L \<lfloor>D\<rfloor>) - 1 = 0" by simp
    moreover from assms(1) have "0 \<le> real i * D" by simp
    ultimately show ?thesis using c0 [OF that(2)] by (simp add: rnd_idem)
  qed
  have cc: "outp' ! i ! c =
           (if i < nat \<lfloor>rnd (real (length inp) / D)\<rfloor> \<and> int c * binning < min ?L \<lfloor>D\<rfloor>
            then inp ! nat \<lfloor>rnd (rnd (real i * D) +
                   of_int (min ((int c + 1) * binning) (min ?L \<lfloor>D\<rfloor>) - 1))\<rfloor>
            else outp ! i ! c)" for i c
    using o(3) [of i c] unfolding lt ri .
  from o(1,2) c0 c1 cc show ?thesis by blast
qed

theorem separate_rows_witness:
  "separate [10, 20, 30, 40, 50 :: int] [[0, 0, 0], [0, 0, 0], [7, 7, 7]] (5 / 2) 2
     \<lparr>start = None, stop = None\<rparr> = Inr [[20, 0, 0], [40, 0, 0], [7, 7, 7]] \<and>
   nat \<lfloor>rnd (real (length [10, 20, 30, 40, 50 :: int]) / (5 / 2))\<rfloor> = 2 \<and>
   nat \<lfloor>rnd (rnd (real 1 * (5 / 2)) + of_int (min 2 (min (int 5) \<lfloor>5 / 2 :: real\<rfloor>) - 1))\<rfloor> = 3 \<and>
   separate [10, 20, 30, 40, 50 :: int] [[0, 0, 0], [0, 0, 0], [7, 7, 7]] (5 / 2) 1
     \<lparr>start = None, stop = None\<rparr> = Inr [[10, 20, 0], [30, 40, 0], [7, 7, 7]] \<and>
   nat \<lfloor>rnd (real 1 * (5 / 2))\<rfloor> = 2"
proof -
  have e: "separate [10, 20, 30, 40, 50 :: int] [[0, 0, 0], [0, 0, 0], [7, 7, 7]] (5 / 2) 2
     \<lparr>start = None, stop = None\<rparr> = Inr [[20, 0, 0], [40, 0, 0], [7, 7, 7]]"
    by (simp add: separate_def Let_def c_int_def to_int_def upto.simps get_def set2_def cdiv_def
        rnd_def round_to_def expo_def compute_bitlen round_even_def)
  have f: "separate [10, 20, 30, 40, 50 :: int] [[0, 0, 0], [0, 0, 0], [7, 7, 7]] (5 / 2) 1
     \<lparr>start = None, stop = None\<rparr> = Inr [[10, 20, 0], [30, 40, 0], [7, 7, 7]]"
    by (simp add: separate_def Let_def c_int_def to_int_def upto.simps get_def set2_def cdiv_def
        rnd_def round_to_def expo_def compute_bitlen round_even_def)
  have n: "nat \<lfloor>rnd (real (length [10, 20, 30, 40, 50 :: int]) / (5 / 2))\<rfloor> = 2"
    by (simp add: rnd_def round_to_def expo_def compute_bitlen round_even_def)
  have k: "nat \<lfloor>rnd (rnd (real 1 * (5 / 2)) +
      of_int (min 2 (min (int 5) \<lfloor>5 / 2 :: real\<rfloor>) - 1))\<rfloor> = 3"
    by (simp add: rnd_def round_to_def expo_def compute_bitlen round_even_def)
  have k1: "nat \<lfloor>rnd (real 1 * (5 / 2))\<rfloor> = 2"
    by (simp add: rnd_def round_to_def expo_def compute_bitlen round_even_def)
  have h: "(1 :: real) \<le> 5 / 2"
    "(5 / 2 :: real) \<le> real (length [10, 20, 30, 40, 50 :: int])"
    "int (length [10, 20, 30, 40, 50 :: int]) < 2 ^ 31"
    by simp_all
  have d: "nat \<lfloor>rnd (real (length [10, 20, 30, 40, 50 :: int]) / (5 / 2))\<rfloor> \<le>
           length [[0, 0, 0], [0, 0, 0], [7, 7, 7 :: int]]"
    "\<forall>i<nat \<lfloor>rnd (real (length [10, 20, 30, 40, 50 :: int]) / (5 / 2))\<rfloor>.
           min (int (length [10, 20, 30, 40, 50 :: int])) \<lfloor>5 / 2 :: real\<rfloor> \<le>
             int (length ([[0, 0, 0], [0, 0, 0], [7, 7, 7 :: int]] ! i))"
    unfolding n by (simp_all add: less_Suc_eq numeral_2_eq_2)
  have b2: "(1 :: int) \<le> 2" and b1: "(1 :: int) \<le> 1" by simp_all
  from separate_rows [OF h b2 d] obtain outp' where
    "separate [10, 20, 30, 40, 50 :: int] [[0, 0, 0], [0, 0, 0], [7, 7, 7]] (5 / 2) 2
       \<lparr>start = None, stop = None\<rparr> = Inr outp'"
    by blast
  moreover from separate_rows [OF h b1 d] obtain outp'' where
    "separate [10, 20, 30, 40, 50 :: int] [[0, 0, 0], [0, 0, 0], [7, 7, 7]] (5 / 2) 1
       \<lparr>start = None, stop = None\<rparr> = Inr outp''"
    by blast
  ultimately show ?thesis
    using e f n k k1 by simp
qed

section \<open>The two directions of draw_line\<close>

text \<open>
  C6, as stated, fails: from \<open>(0, 0)\<close> to \<open>(2, 1)\<close> the line passes through \<open>(1, 1)\<close>
  (address 100), from \<open>(2, 1)\<close> to \<open>(0, 0)\<close> through \<open>(1, 0)\<close> (address 111). The error term
  starts at 0 in both directions and the test \<open>error >= 0\<close> steps the minor axis at once.
\<close>

theorem draw_line_not_symmetric:
  "draw_line scenario_surface 0 0 2 1 1 blank \<noteq> draw_line scenario_surface 2 1 0 0 1 blank"
proof -
  have a: "draw_line scenario_surface 0 0 2 1 1 blank =
      Some (blank(110 := 1, 100 := 1, 101 := 1))"
    by (simp add: draw_line_def line_loop_x.simps draw_pixel_def scenario_surface_def)
  have b: "draw_line scenario_surface 2 1 0 0 1 blank =
      Some (blank(101 := 1, 111 := 1, 110 := 1))"
    by (simp add: draw_line_def line_loop_x.simps draw_pixel_def scenario_surface_def)
  have "(blank(110 := 1, 100 := 1, 101 := 1)) 100 \<noteq>
      (blank(101 := 1, 111 := 1, 110 := 1)) 100"
    by (simp add: blank_def)
  then have "blank(110 := 1, 100 := 1, 101 := 1) \<noteq> blank(101 := 1, 111 := 1, 110 := 1)"
    by metis
  with a b show ?thesis by simp
qed

text \<open>Diagonals and segments of odd major difference are free of ties.\<close>

lemma tie_free_diagonal: "0 < M \<Longrightarrow> tie_free M M"
proof -
  assume M: "0 < M"
  have "\<not> 2 * M dvd 2 * M * t + M" for t
  proof
    assume "2 * M dvd 2 * M * t + M"
    then have "2 * M dvd M" by (simp add: dvd_add_right_iff)
    with M show False by (auto dest: zdvd_imp_le)
  qed
  then show ?thesis by (simp add: tie_free_def)
qed

lemma tie_free_odd: "odd M \<Longrightarrow> tie_free M m"
proof -
  assume M: "odd M"
  have "\<not> 2 * M dvd 2 * m * t + M" for t
  proof
    assume "2 * M dvd 2 * m * t + M"
    then have "2 dvd 2 * m * t + M" by (rule dvd_mult_left)
    with M show False by simp
  qed
  then show ?thesis by (simp add: tie_free_def)
qed

lemma minor_steps_0: "0 < M \<Longrightarrow> minor_steps M m 0 = 0"
  by (simp add: minor_steps_def)

lemma minor_steps_end: "0 < M \<Longrightarrow> minor_steps M m M = m"
proof -
  assume M: "0 < M"
  have "(2 * m * M + M) div (2 * M) = m"
  proof (rule int_div_pos_eq)
    show "2 * m * M + M = 2 * M * m + M" by simp
    show "0 \<le> M" using M by simp
    show "M < 2 * M" using M by simp
  qed
  then show ?thesis by (simp only: minor_steps_def)
qed

lemma minor_steps_next:
  assumes m: "0 < m" "m \<le> M"
  shows "minor_steps M m (t + 1) =
      (if 0 \<le> 2 * m * (t + 1) - M - 2 * M * minor_steps M m t
       then minor_steps M m t + 1 else minor_steps M m t)"
proof -
  define a where "a = 2 * m * t + M"
  define q where "q = a div (2 * M)"
  define r where "r = a mod (2 * M)"
  from m have M: "0 < 2 * M" by simp
  have a: "a = 2 * M * q + r" by (simp add: q_def r_def)
  have r: "0 \<le> r" "r < 2 * M" using M by (simp_all add: r_def)
  have e: "2 * m * (t + 1) - M - 2 * M * q = r + 2 * m - 2 * M"
    using a by (simp add: a_def algebra_simps)
  have n: "2 * m * (t + 1) + M = a + 2 * m" by (simp add: a_def algebra_simps)
  have q: "minor_steps M m t = q" by (simp add: minor_steps_def q_def a_def)
  show ?thesis
  proof (cases "0 \<le> r + 2 * m - 2 * M")
    case True
    have "(2 * m * (t + 1) + M) div (2 * M) = q + 1"
    proof (rule int_div_pos_eq)
      show "2 * m * (t + 1) + M = 2 * M * (q + 1) + (r + 2 * m - 2 * M)"
        unfolding n a by (simp add: algebra_simps)
      show "0 \<le> r + 2 * m - 2 * M" by fact
      show "r + 2 * m - 2 * M < 2 * M" using r m by linarith
    qed
    then have "minor_steps M m (t + 1) = q + 1" by (simp only: minor_steps_def)
    with True show ?thesis unfolding q e by simp
  next
    case False
    have "(2 * m * (t + 1) + M) div (2 * M) = q"
    proof (rule int_div_pos_eq)
      show "2 * m * (t + 1) + M = 2 * M * q + (r + 2 * m)"
        unfolding n a by (simp add: algebra_simps)
      show "0 \<le> r + 2 * m" using r m by linarith
      show "r + 2 * m < 2 * M" using False by linarith
    qed
    then have "minor_steps M m (t + 1) = q" by (simp only: minor_steps_def)
    with False show ?thesis unfolding q e by simp
  qed
qed

text \<open>Without ties, the steps counted from the far end mirror those counted from the
  near end.\<close>

lemma minor_steps_mirror:
  assumes M: "0 < M" and tf: "tie_free M m" and u: "0 \<le> u" "u \<le> M"
  shows "minor_steps M m (M - u) = m - minor_steps M m u"
proof -
  define a where "a = 2 * m * u + M"
  define q where "q = a div (2 * M)"
  define r where "r = a mod (2 * M)"
  from M have M2: "0 < 2 * M" by simp
  have a: "a = 2 * M * q + r" by (simp add: q_def r_def)
  have r: "0 \<le> r" "r < 2 * M" using M2 by (simp_all add: r_def)
  have "\<not> 2 * M dvd a"
  proof (cases "u = 0")
    case True
    from M have "M mod (2 * M) = M" by simp
    with M have "\<not> 2 * M dvd M" by (simp add: dvd_eq_mod_eq_0)
    with True show ?thesis by (simp add: a_def)
  next
    case False
    with u have "u \<in> set [1..M]" by simp
    with tf show ?thesis unfolding tie_free_def a_def by blast
  qed
  then have "r \<noteq> 0" by (simp add: r_def dvd_eq_mod_eq_0)
  with r have r0: "0 < r" by simp
  have "(2 * m * (M - u) + M) div (2 * M) = m - q"
  proof (rule int_div_pos_eq)
    have "2 * m * (M - u) + M = 2 * M * m + 2 * M - a" by (simp add: a_def algebra_simps)
    also have "\<dots> = 2 * M * (m - q) + (2 * M - r)" unfolding a by (simp add: algebra_simps)
    finally show "2 * m * (M - u) + M = 2 * M * (m - q) + (2 * M - r)" .
    show "0 \<le> 2 * M - r" using r by simp
    show "2 * M - r < 2 * M" using r0 by simp
  qed
  then show ?thesis by (simp add: minor_steps_def q_def a_def)
qed

text \<open>The pixels drawn by the loops: step \<open>t\<close> draws the pixel \<open>t\<close> steps along the major
  axis and \<open>minor_steps M m t\<close> steps along the minor axis.\<close>

lemma line_loop_x_trace:
  assumes m: "0 < m" "m \<le> M" and ix: "ix = 1 \<or> ix = - 1" and t: "0 \<le> t" "t \<le> M"
  shows "line_loop_x s (x1 + ix * t) (y1 + iy * minor_steps M m t) (x1 + ix * M) ix iy
           (2 * m * (t + 1) - M - 2 * M * minor_steps M m t) (2 * M) (2 * m) c buf =
         Some (x1 + ix * M, y1 + iy * m,
           fold (\<lambda>u. draw_pixel s (x1 + ix * u) (y1 + iy * minor_steps M m u) c) [t..M - 1] buf)"
  using t
proof (induction "nat (M - t)" arbitrary: t buf)
  case 0
  then have t: "t = M" by simp
  from m have "0 < M" by simp
  then have e: "minor_steps M m M = m" by (rule minor_steps_end)
  show ?case
    unfolding t e by (subst line_loop_x.simps) simp
next
  case (Suc n)
  let ?Y = "minor_steps M m"
  let ?E = "\<lambda>t. 2 * m * (t + 1) - M - 2 * M * ?Y t"
  let ?f = "\<lambda>u. draw_pixel s (x1 + ix * u) (y1 + iy * ?Y u) c"
  from Suc.hyps(2) have lt: "t < M" by simp
  with ix have ne: "x1 + ix * t \<noteq> x1 + ix * M" by auto
  have x: "x1 + ix * t + ix = x1 + ix * (t + 1)" by (simp add: algebra_simps)
  have y: "(if 0 \<le> ?E t then y1 + iy * ?Y t + iy else y1 + iy * ?Y t) = y1 + iy * ?Y (t + 1)"
    unfolding minor_steps_next [OF m, of t] by (simp add: algebra_simps)
  have err: "(if 0 \<le> ?E t then ?E t - 2 * M else ?E t) + 2 * m = ?E (t + 1)"
    unfolding minor_steps_next [OF m, of t] by (simp add: algebra_simps)
  have n: "n = nat (M - (t + 1))" using Suc.hyps(2) by simp
  from Suc.prems lt have t1: "0 \<le> t + 1" "t + 1 \<le> M" by simp_all
  have l: "[t..M - 1] = t # [t + 1..M - 1]"
    using lt by (simp add: upto.simps)
  have "line_loop_x s (x1 + ix * t) (y1 + iy * ?Y t) (x1 + ix * M) ix iy (?E t) (2 * M) (2 * m)
      c buf =
    line_loop_x s (x1 + ix * (t + 1)) (y1 + iy * ?Y (t + 1)) (x1 + ix * M) ix iy (?E (t + 1))
      (2 * M) (2 * m) c (?f t buf)"
    by (subst line_loop_x.simps) (simp only: ne if_True not_False_eq_True x y err)
  also have "\<dots> = Some (x1 + ix * M, y1 + iy * m, fold ?f [t + 1..M - 1] (?f t buf))"
    by (rule Suc.hyps(1) [OF n t1])
  finally show ?case unfolding l by simp
qed

lemma line_loop_y_trace:
  assumes m: "0 < m" "m \<le> M" and iy: "iy = 1 \<or> iy = - 1" and t: "0 \<le> t" "t \<le> M"
  shows "line_loop_y s (x1 + ix * minor_steps M m t) (y1 + iy * t) (y1 + iy * M) ix iy
           (2 * m * (t + 1) - M - 2 * M * minor_steps M m t) (2 * m) (2 * M) c buf =
         Some (x1 + ix * m, y1 + iy * M,
           fold (\<lambda>u. draw_pixel s (x1 + ix * minor_steps M m u) (y1 + iy * u) c) [t..M - 1] buf)"
  using t
proof (induction "nat (M - t)" arbitrary: t buf)
  case 0
  then have t: "t = M" by simp
  from m have "0 < M" by simp
  then have e: "minor_steps M m M = m" by (rule minor_steps_end)
  show ?case
    unfolding t e by (subst line_loop_y.simps) simp
next
  case (Suc n)
  let ?X = "minor_steps M m"
  let ?E = "\<lambda>t. 2 * m * (t + 1) - M - 2 * M * ?X t"
  let ?f = "\<lambda>u. draw_pixel s (x1 + ix * ?X u) (y1 + iy * u) c"
  from Suc.hyps(2) have lt: "t < M" by simp
  with iy have ne: "y1 + iy * t \<noteq> y1 + iy * M" by auto
  have y: "y1 + iy * t + iy = y1 + iy * (t + 1)" by (simp add: algebra_simps)
  have x: "(if 0 \<le> ?E t then x1 + ix * ?X t + ix else x1 + ix * ?X t) = x1 + ix * ?X (t + 1)"
    unfolding minor_steps_next [OF m, of t] by (simp add: algebra_simps)
  have err: "(if 0 \<le> ?E t then ?E t - 2 * M else ?E t) + 2 * m = ?E (t + 1)"
    unfolding minor_steps_next [OF m, of t] by (simp add: algebra_simps)
  have n: "n = nat (M - (t + 1))" using Suc.hyps(2) by simp
  from Suc.prems lt have t1: "0 \<le> t + 1" "t + 1 \<le> M" by simp_all
  have l: "[t..M - 1] = t # [t + 1..M - 1]"
    using lt by (simp add: upto.simps)
  have "line_loop_y s (x1 + ix * ?X t) (y1 + iy * t) (y1 + iy * M) ix iy (?E t) (2 * m) (2 * M)
      c buf =
    line_loop_y s (x1 + ix * ?X (t + 1)) (y1 + iy * (t + 1)) (y1 + iy * M) ix iy (?E (t + 1))
      (2 * m) (2 * M) c (?f t buf)"
    by (subst line_loop_y.simps) (simp only: ne if_True not_False_eq_True x y err)
  also have "\<dots> = Some (x1 + ix * m, y1 + iy * M, fold ?f [t + 1..M - 1] (?f t buf))"
    by (rule Suc.hyps(1) [OF n t1])
  finally show ?case unfolding l by simp
qed

text \<open>What a sequence of \<open>draw_pixel\<close> calls of one colour leaves in memory depends only
  on the set of the pixels.\<close>

lemma fold_draw_pixel:
  "fold (\<lambda>u. draw_pixel s (px u) (py u) c) us buf a =
     (if \<exists>p\<in>(\<lambda>u. (px u, py u)) ` set us.
           min_x s \<le> fst p \<and> fst p \<le> max_x s \<and> min_y s \<le> snd p \<and> snd p \<le> max_y s \<and>
           a = ptr s + ((height_complement s - snd p) * line_length s + fst p)
      then word_of_int c else buf a)"
proof (induction us arbitrary: buf)
  case Nil
  show ?case by simp
next
  case (Cons u us)
  show ?case
    unfolding fold_simps Cons.IH
    by (auto simp add: draw_pixel_def)
qed

lemma fold_draw_pixel_cong:
  assumes "(\<lambda>u. (px u, py u)) ` set us = (\<lambda>u. (qx u, qy u)) ` set vs"
  shows "fold (\<lambda>u. draw_pixel s (px u) (py u) c) us buf =
         fold (\<lambda>u. draw_pixel s (qx u) (qy u) c) vs buf"
proof (rule ext)
  fix a
  show "fold (\<lambda>u. draw_pixel s (px u) (py u) c) us buf a =
        fold (\<lambda>u. draw_pixel s (qx u) (qy u) c) vs buf a"
    unfolding fold_draw_pixel assms by (rule refl)
qed

text \<open>The general branches of \<open>draw_line\<close>.\<close>

lemma upto_snoc:
  fixes M :: int
  assumes "0 \<le> M"
  shows "fold f [0..M] buf = f M (fold f [0..M - 1] buf)"
proof -
  from assms have "[0..M] = [0..M - 1] @ [M]" by (rule upto_rec2)
  then show ?thesis by simp
qed

lemma draw_line_x_major:
  assumes x: "x1 \<noteq> x2" and y: "y1 \<noteq> y2" and le: "\<bar>y2 - y1\<bar> \<le> \<bar>x2 - x1\<bar>"
  shows "draw_line s x1 y1 x2 y2 c buf =
     Some (fold (\<lambda>u. draw_pixel s (x1 + sgn (x2 - x1) * u)
                   (y1 + sgn (y2 - y1) * minor_steps \<bar>x2 - x1\<bar> \<bar>y2 - y1\<bar> u) c)
             [0..\<bar>x2 - x1\<bar>] buf)"
proof -
  let ?M = "\<bar>x2 - x1\<bar>" and ?m = "\<bar>y2 - y1\<bar>"
  let ?ix = "sgn (x2 - x1)" and ?iy = "sgn (y2 - y1)"
  let ?f = "\<lambda>u. draw_pixel s (x1 + ?ix * u) (y1 + ?iy * minor_steps ?M ?m u) c"
  have dx: "(if x2 \<ge> x1 then x2 - x1 else x1 - x2) = ?M" by simp
  have dy: "(if y2 \<ge> y1 then y2 - y1 else y1 - y2) = ?m" by simp
  have ix: "(if x2 \<ge> x1 then 1 else - 1) = ?ix" using x by (simp add: sgn_if)
  have iy: "(if y2 \<ge> y1 then 1 else - 1) = ?iy" using y by (simp add: sgn_if)
  have p: "push_bit 1 d = 2 * d" for d :: int by (simp add: push_bit_eq_mult)
  from x have M0: "?M \<noteq> 0" by simp
  from y have m0: "?m \<noteq> 0" by simp
  from x have M: "0 < ?M" by simp
  from y have m: "0 < ?m" by simp
  from le have ge: "?M \<ge> ?m" by simp
  have x2: "x2 = x1 + ?ix * ?M" by (simp add: sgn_if)
  have y2: "y2 = y1 + ?iy * ?m" by (simp add: sgn_if)
  have i: "?ix = 1 \<or> ?ix = - 1" using x by (simp add: sgn_if)
  have l: "line_loop_x s x1 y1 x2 ?ix ?iy (2 * ?m - ?M) (2 * ?M) (2 * ?m) c buf =
      Some (x2, y2, fold ?f [0..?M - 1] buf)"
  proof -
    have "line_loop_x s (x1 + ?ix * 0) (y1 + ?iy * minor_steps ?M ?m 0) (x1 + ?ix * ?M) ?ix ?iy
        (2 * ?m * (0 + 1) - ?M - 2 * ?M * minor_steps ?M ?m 0) (2 * ?M) (2 * ?m) c buf =
      Some (x1 + ?ix * ?M, y1 + ?iy * ?m, fold ?f [0..?M - 1] buf)"
      using M by (intro line_loop_x_trace [OF m le i]) simp_all
    then show ?thesis
      unfolding minor_steps_0 [OF M] x2 [symmetric] y2 [symmetric] by simp
  qed
  have e: "draw_pixel s x2 y2 c (fold ?f [0..?M - 1] buf) = fold ?f [0..?M] buf"
  proof -
    have "fold ?f [0..?M] buf = ?f ?M (fold ?f [0..?M - 1] buf)"
      by (rule upto_snoc) simp
    then show ?thesis
      unfolding minor_steps_end [OF M] x2 [symmetric] y2 [symmetric] by simp
  qed
  show ?thesis
    unfolding draw_line_def Let_def dx dy ix iy p
    by (simp only: if_not_P [OF M0] if_not_P [OF m0] if_P [OF ge] l option.case prod.case e)
qed

lemma draw_line_y_major:
  assumes x: "x1 \<noteq> x2" and y: "y1 \<noteq> y2" and lt: "\<bar>x2 - x1\<bar> < \<bar>y2 - y1\<bar>"
  shows "draw_line s x1 y1 x2 y2 c buf =
     Some (fold (\<lambda>u. draw_pixel s (x1 + sgn (x2 - x1) * minor_steps \<bar>y2 - y1\<bar> \<bar>x2 - x1\<bar> u)
                   (y1 + sgn (y2 - y1) * u) c)
             [0..\<bar>y2 - y1\<bar>] buf)"
proof -
  let ?M = "\<bar>y2 - y1\<bar>" and ?m = "\<bar>x2 - x1\<bar>"
  let ?ix = "sgn (x2 - x1)" and ?iy = "sgn (y2 - y1)"
  let ?f = "\<lambda>u. draw_pixel s (x1 + ?ix * minor_steps ?M ?m u) (y1 + ?iy * u) c"
  have dx: "(if x2 \<ge> x1 then x2 - x1 else x1 - x2) = ?m" by simp
  have dy: "(if y2 \<ge> y1 then y2 - y1 else y1 - y2) = ?M" by simp
  have ix: "(if x2 \<ge> x1 then 1 else - 1) = ?ix" using x by (simp add: sgn_if)
  have iy: "(if y2 \<ge> y1 then 1 else - 1) = ?iy" using y by (simp add: sgn_if)
  have p: "push_bit 1 d = 2 * d" for d :: int by (simp add: push_bit_eq_mult)
  from x have m0: "?m \<noteq> 0" by simp
  from y have M0: "?M \<noteq> 0" by simp
  from y have M: "0 < ?M" by simp
  from x have m: "0 < ?m" by simp
  from lt have le: "?m \<le> ?M" and nge: "\<not> ?m \<ge> ?M" by simp_all
  have x2: "x2 = x1 + ?ix * ?m" by (simp add: sgn_if)
  have y2: "y2 = y1 + ?iy * ?M" by (simp add: sgn_if)
  have i: "?iy = 1 \<or> ?iy = - 1" using y by (simp add: sgn_if)
  have l: "line_loop_y s x1 y1 y2 ?ix ?iy (2 * ?m - ?M) (2 * ?m) (2 * ?M) c buf =
      Some (x2, y2, fold ?f [0..?M - 1] buf)"
  proof -
    have "line_loop_y s (x1 + ?ix * minor_steps ?M ?m 0) (y1 + ?iy * 0) (y1 + ?iy * ?M) ?ix ?iy
        (2 * ?m * (0 + 1) - ?M - 2 * ?M * minor_steps ?M ?m 0) (2 * ?m) (2 * ?M) c buf =
      Some (x1 + ?ix * ?m, y1 + ?iy * ?M, fold ?f [0..?M - 1] buf)"
      using M by (intro line_loop_y_trace [OF m le i]) simp_all
    then show ?thesis
      unfolding minor_steps_0 [OF M] x2 [symmetric] y2 [symmetric] by simp
  qed
  have e: "draw_pixel s x2 y2 c (fold ?f [0..?M - 1] buf) = fold ?f [0..?M] buf"
  proof -
    have "fold ?f [0..?M] buf = ?f ?M (fold ?f [0..?M - 1] buf)"
      by (rule upto_snoc) simp
    then show ?thesis
      unfolding minor_steps_end [OF M] x2 [symmetric] y2 [symmetric] by simp
  qed
  show ?thesis
    unfolding draw_line_def Let_def dx dy ix iy p
    by (simp only: if_not_P [OF m0] if_not_P [OF M0] if_not_P [OF nge] l option.case
        prod.case e)
qed

text \<open>The pixels of a segment free of ties, walked from either end.\<close>

lemma mirror_pixels:
  assumes M: "0 < M" and tf: "tie_free M m" and i: "i * i = 1" "j * j = (1 :: int)"
  shows "(\<lambda>u. (a + i * M + - i * u, b + j * m + - j * minor_steps M m u)) ` set [0..M] =
         (\<lambda>u. (a + i * u, b + j * minor_steps M m u)) ` set [0..M]"
proof -
  have r: "(a + i * M + - i * u, b + j * m + - j * minor_steps M m u) =
      (a + i * (M - u), b + j * minor_steps M m (M - u))"
    if "u \<in> set [0..M]" for u
  proof -
    from that have u: "0 \<le> u" "u \<le> M" by simp_all
    show ?thesis
      unfolding minor_steps_mirror [OF M tf u] by (simp add: algebra_simps)
  qed
  show ?thesis
  proof (intro set_eqI iffI)
    fix p
    assume "p \<in> (\<lambda>u. (a + i * M + - i * u, b + j * m + - j * minor_steps M m u)) ` set [0..M]"
    then obtain u where u: "u \<in> set [0..M]"
      and p: "p = (a + i * M + - i * u, b + j * m + - j * minor_steps M m u)"
      by blast
    from u have "M - u \<in> set [0..M]" by simp
    moreover from p r [OF u] have "p = (a + i * (M - u), b + j * minor_steps M m (M - u))"
      by simp
    ultimately show "p \<in> (\<lambda>u. (a + i * u, b + j * minor_steps M m u)) ` set [0..M]"
      by blast
  next
    fix p
    assume "p \<in> (\<lambda>u. (a + i * u, b + j * minor_steps M m u)) ` set [0..M]"
    then obtain u where u: "u \<in> set [0..M]"
      and p: "p = (a + i * u, b + j * minor_steps M m u)"
      by blast
    from u have v: "M - u \<in> set [0..M]" by simp
    from r [OF v] p
    have "p = (a + i * M + - i * (M - u), b + j * m + - j * minor_steps M m (M - u))"
      by simp
    with v show
      "p \<in> (\<lambda>u. (a + i * M + - i * u, b + j * m + - j * minor_steps M m u)) ` set [0..M]"
      by blast
  qed
qed

lemma draw_line_axis:
  "x1 = x2 \<or> y1 = y2 \<Longrightarrow> draw_line s x1 y1 x2 y2 c buf = draw_line s x2 y2 x1 y1 c buf"
  by (auto simp add: draw_line_def Let_def)

lemma draw_line_tie_free:
  assumes x: "x1 \<noteq> x2" and y: "y1 \<noteq> y2"
    and tf: "tie_free (max \<bar>x2 - x1\<bar> \<bar>y2 - y1\<bar>) (min \<bar>x2 - x1\<bar> \<bar>y2 - y1\<bar>)"
  shows "draw_line s x1 y1 x2 y2 c buf = draw_line s x2 y2 x1 y1 c buf"
proof (cases "\<bar>y2 - y1\<bar> \<le> \<bar>x2 - x1\<bar>")
  case True
  let ?M = "\<bar>x2 - x1\<bar>" and ?m = "\<bar>y2 - y1\<bar>"
  let ?i = "sgn (x2 - x1)" and ?j = "sgn (y2 - y1)"
  from True have mm: "max ?M ?m = ?M" "min ?M ?m = ?m" by linarith+
  from tf have tf': "tie_free ?M ?m" unfolding mm .
  from x have M: "0 < ?M" by simp
  have a: "\<bar>x1 - x2\<bar> = ?M" "\<bar>y1 - y2\<bar> = ?m" by simp_all
  have s: "sgn (x1 - x2) = - ?i" "sgn (y1 - y2) = - ?j" by (simp_all add: sgn_if)
  have e: "x2 = x1 + ?i * ?M" "y2 = y1 + ?j * ?m" by (simp_all add: sgn_if)
  have i: "?i * ?i = 1" "?j * ?j = 1" using x y by (simp_all add: sgn_if)
  from True have le: "\<bar>y1 - y2\<bar> \<le> \<bar>x1 - x2\<bar>" by simp
  have "draw_line s x2 y2 x1 y1 c buf =
      Some (fold (\<lambda>u. draw_pixel s (x2 + - ?i * u) (y2 + - ?j * minor_steps ?M ?m u) c)
              [0..?M] buf)"
    using draw_line_x_major [OF x [symmetric] y [symmetric] le, of s c buf]
    unfolding a s .
  also have "fold (\<lambda>u. draw_pixel s (x2 + - ?i * u) (y2 + - ?j * minor_steps ?M ?m u) c)
        [0..?M] buf =
      fold (\<lambda>u. draw_pixel s (x1 + ?i * u) (y1 + ?j * minor_steps ?M ?m u) c) [0..?M] buf"
  proof (rule fold_draw_pixel_cong)
    have "(\<lambda>u. (x1 + ?i * ?M + - ?i * u, y1 + ?j * ?m + - ?j * minor_steps ?M ?m u)) `
          set [0..?M] =
        (\<lambda>u. (x1 + ?i * u, y1 + ?j * minor_steps ?M ?m u)) ` set [0..?M]"
      by (rule mirror_pixels [OF M tf' i])
    then show "(\<lambda>u. (x2 + - ?i * u, y2 + - ?j * minor_steps ?M ?m u)) ` set [0..?M] =
        (\<lambda>u. (x1 + ?i * u, y1 + ?j * minor_steps ?M ?m u)) ` set [0..?M]"
      unfolding e [symmetric] .
  qed
  also have "Some (fold (\<lambda>u. draw_pixel s (x1 + ?i * u) (y1 + ?j * minor_steps ?M ?m u) c)
        [0..?M] buf) = draw_line s x1 y1 x2 y2 c buf"
    using draw_line_x_major [OF x y True, of s c buf] by (rule sym)
  finally show ?thesis by (rule sym)
next
  case False
  let ?M = "\<bar>y2 - y1\<bar>" and ?m = "\<bar>x2 - x1\<bar>"
  let ?i = "sgn (x2 - x1)" and ?j = "sgn (y2 - y1)"
  from False have lt: "?m < ?M" by simp
  then have mm: "max ?m ?M = ?M" "min ?m ?M = ?m" by linarith+
  from tf have tf': "tie_free ?M ?m" unfolding mm .
  from y have M: "0 < ?M" by simp
  have a: "\<bar>x1 - x2\<bar> = ?m" "\<bar>y1 - y2\<bar> = ?M" by simp_all
  have s: "sgn (x1 - x2) = - ?i" "sgn (y1 - y2) = - ?j" by (simp_all add: sgn_if)
  have e: "x2 = x1 + ?i * ?m" "y2 = y1 + ?j * ?M" by (simp_all add: sgn_if)
  have i: "?j * ?j = 1" "?i * ?i = 1" using x y by (simp_all add: sgn_if)
  from lt have lt': "\<bar>x1 - x2\<bar> < \<bar>y1 - y2\<bar>" by simp
  have "draw_line s x2 y2 x1 y1 c buf =
      Some (fold (\<lambda>u. draw_pixel s (x2 + - ?i * minor_steps ?M ?m u) (y2 + - ?j * u) c)
              [0..?M] buf)"
    using draw_line_y_major [OF x [symmetric] y [symmetric] lt', of s c buf]
    unfolding a s .
  also have "fold (\<lambda>u. draw_pixel s (x2 + - ?i * minor_steps ?M ?m u) (y2 + - ?j * u) c)
        [0..?M] buf =
      fold (\<lambda>u. draw_pixel s (x1 + ?i * minor_steps ?M ?m u) (y1 + ?j * u) c) [0..?M] buf"
  proof (rule fold_draw_pixel_cong)
    have "(\<lambda>u. (y1 + ?j * ?M + - ?j * u, x1 + ?i * ?m + - ?i * minor_steps ?M ?m u)) `
          set [0..?M] =
        (\<lambda>u. (y1 + ?j * u, x1 + ?i * minor_steps ?M ?m u)) ` set [0..?M]"
      by (rule mirror_pixels [OF M tf' i])
    then have "(\<lambda>u. (y2 + - ?j * u, x2 + - ?i * minor_steps ?M ?m u)) ` set [0..?M] =
        (\<lambda>u. (y1 + ?j * u, x1 + ?i * minor_steps ?M ?m u)) ` set [0..?M]"
      unfolding e [symmetric] .
    then have "prod.swap ` (\<lambda>u. (y2 + - ?j * u, x2 + - ?i * minor_steps ?M ?m u)) ` set [0..?M] =
        prod.swap ` (\<lambda>u. (y1 + ?j * u, x1 + ?i * minor_steps ?M ?m u)) ` set [0..?M]"
      by (rule arg_cong)
    then show "(\<lambda>u. (x2 + - ?i * minor_steps ?M ?m u, y2 + - ?j * u)) ` set [0..?M] =
        (\<lambda>u. (x1 + ?i * minor_steps ?M ?m u, y1 + ?j * u)) ` set [0..?M]"
      by (simp only: image_image prod.swap_def fst_conv snd_conv)
  qed
  also have "Some (fold (\<lambda>u. draw_pixel s (x1 + ?i * minor_steps ?M ?m u) (y1 + ?j * u) c)
        [0..?M] buf) = draw_line s x1 y1 x2 y2 c buf"
    using draw_line_y_major [OF x y lt, of s c buf] by (rule sym)
  finally show ?thesis by (rule sym)
qed

text \<open>
  C6, amended. For a horizontal or a vertical segment, and for every segment free of
  ties (the diagonals and the segments of odd major difference among them),
  \<open>draw_line\<close> returns in both directions and, from the same memory, returns the same
  memory.
\<close>

theorem draw_line_symmetric:
  assumes "x1 = x2 \<or> y1 = y2 \<or>
     tie_free (max \<bar>x2 - x1\<bar> \<bar>y2 - y1\<bar>) (min \<bar>x2 - x1\<bar> \<bar>y2 - y1\<bar>)"
  shows "\<exists>m'. draw_line s x1 y1 x2 y2 c m = Some m' \<and> draw_line s x2 y2 x1 y1 c m = Some m'"
proof -
  have "draw_line s x1 y1 x2 y2 c m = draw_line s x2 y2 x1 y1 c m"
  proof (cases "x1 = x2 \<or> y1 = y2")
    case True
    then show ?thesis by (rule draw_line_axis)
  next
    case False
    with assms show ?thesis by (intro draw_line_tie_free) simp_all
  qed
  with draw_line_returns [of s x1 y1 x2 y2 c m] show ?thesis by auto
qed

theorem draw_line_symmetric_witness:
  "tie_free (max \<bar>3 - 0\<bar> \<bar>1 - 0\<bar>) (min \<bar>3 - 0\<bar> \<bar>1 - 0\<bar>) \<and>
   draw_line scenario_surface 0 0 3 1 1 blank =
     Some (blank(110 := 1, 111 := 1, 101 := 1, 102 := 1)) \<and>
   draw_line scenario_surface 3 1 0 0 1 blank =
     Some (blank(110 := 1, 111 := 1, 101 := 1, 102 := 1)) \<and>
   tie_free (max \<bar>2 - 0\<bar> \<bar>2 - 0\<bar>) (min \<bar>2 - 0\<bar> \<bar>2 - 0\<bar>) \<and>
   draw_line scenario_surface 0 0 2 2 1 blank = Some (blank(110 := 1, 100 := 1, 90 := 1)) \<and>
   draw_line scenario_surface 2 2 0 0 1 blank = Some (blank(110 := 1, 100 := 1, 90 := 1)) \<and>
   draw_line scenario_surface 1 3 4 3 1 blank =
     Some (blank(78 := 1, 79 := 1, 80 := 1, 81 := 1)) \<and>
   draw_line scenario_surface 4 3 1 3 1 blank =
     Some (blank(78 := 1, 79 := 1, 80 := 1, 81 := 1))"
proof -
  have t: "tie_free (max \<bar>3 - 0\<bar> \<bar>1 - 0\<bar>) (min \<bar>3 - 0\<bar> \<bar>1 - 0\<bar>)"
    by (simp add: tie_free_odd)
  have t': "tie_free (max \<bar>2 - 0\<bar> \<bar>2 - 0\<bar>) (min \<bar>2 - 0\<bar> \<bar>2 - 0\<bar>)"
    by (simp add: tie_free_diagonal)
  have a: "draw_line scenario_surface 0 0 3 1 1 blank =
      Some (blank(110 := 1, 111 := 1, 101 := 1, 102 := 1))"
    by (simp add: draw_line_def line_loop_x.simps draw_pixel_def scenario_surface_def)
  have a': "draw_line scenario_surface 0 0 2 2 1 blank =
      Some (blank(110 := 1, 100 := 1, 90 := 1))"
    by (simp add: draw_line_def line_loop_x.simps draw_pixel_def scenario_surface_def)
  have b: "draw_line scenario_surface 1 3 4 3 1 blank =
      Some (blank(78 := 1, 79 := 1, 80 := 1, 81 := 1))"
    by (simp add: draw_line_def draw_pixel_def scenario_surface_def upto.simps)
  from t have "(0 :: int) = 3 \<or> (0 :: int) = 1 \<or>
      tie_free (max \<bar>3 - 0\<bar> \<bar>1 - 0\<bar>) (min \<bar>3 - 0\<bar> \<bar>1 - 0\<bar>)"
    by simp
  from draw_line_symmetric [OF this, of scenario_surface 1 blank] a
  have c: "draw_line scenario_surface 3 1 0 0 1 blank =
      Some (blank(110 := 1, 111 := 1, 101 := 1, 102 := 1))"
    by simp
  from t' have "(0 :: int) = 2 \<or> (0 :: int) = 2 \<or>
      tie_free (max \<bar>2 - 0\<bar> \<bar>2 - 0\<bar>) (min \<bar>2 - 0\<bar> \<bar>2 - 0\<bar>)"
    by simp
  from draw_line_symmetric [OF this, of scenario_surface 1 blank] a'
  have c': "draw_line scenario_surface 2 2 0 0 1 blank =
      Some (blank(110 := 1, 100 := 1, 90 := 1))"
    by simp
  have "(1 :: int) = 4 \<or> (3 :: int) = 3 \<or>
      tie_free (max \<bar>4 - 1\<bar> \<bar>3 - 3\<bar>) (min \<bar>4 - 1\<bar> \<bar>3 - 3\<bar>)"
    by simp
  from draw_line_symmetric [OF this, of scenario_surface 1 blank] b
  have d: "draw_line scenario_surface 4 3 1 3 1 blank =
      Some (blank(78 := 1, 79 := 1, 80 := 1, 81 := 1))"
    by simp
  from t t' a a' b c c' d show ?thesis by simp
qed

end
